theory Spec2Isabelle
  imports Complex_Main
begin

section \<open>Data model\<close>

text \<open>
  The gap filler and the validator of \<^verbatim>\<open>mcari_analysis.py\<close> (the SAVI script is the same
  code with the column prefix changed) work on pandas data frames. A frame is modelled by the
  list of its rows together with the names of the optional columns it carries; the columns
  \<^verbatim>\<open>date\<close> and \<^verbatim>\<open>MCARI_mean\<close> are part of every frame modelled (the source
  raises \<^verbatim>\<open>KeyError\<close> on a frame without them). A float cell is a \<open>real option\<close>:
  \<open>None\<close> is pandas' null (NaN), floating-point numbers are taken as exact reals.

  The date column holds either the strings the acquisition step produces or the timestamps
  \<^verbatim>\<open>pd.to_datetime\<close> turns them into; both denote a calendar day, kept as the number of
  the day. Strings that do not parse are outside the model.
\<close>

datatype error = ValueError

datatype date_cell = DateStr int | Timestamp int

fun day_of :: "date_cell \<Rightarrow> int" where
  "day_of (DateStr d) = d"
| "day_of (Timestamp d) = d"

definition to_datetime :: "date_cell \<Rightarrow> date_cell" where
  "to_datetime c = Timestamp (day_of c)"

record row =
  date :: date_cell
  MCARI_mean :: "real option"
  MCARI_stdDev :: "real option"
  MCARI_min :: "real option"
  MCARI_max :: "real option"
  cloud_cover :: "real option"
  is_interpolated :: "bool option"

record frame =
  columns :: "string list"
  rows :: "row list"

definition empty_df :: "frame \<Rightarrow> bool" where
  "empty_df df = (rows df = [])"

text \<open>\<^verbatim>\<open>df['date'] = pd.to_datetime(df['date'])\<close>: an assignment into the frame passed in.\<close>

definition convert_dates :: "frame \<Rightarrow> frame" where
  "convert_dates df = df\<lparr>rows := map (\<lambda>r. r\<lparr>date := to_datetime (date r)\<rparr>) (rows df)\<rparr>"

definition days :: "row list \<Rightarrow> int list" where
  "days rs = map (\<lambda>r. day_of (date r)) rs"

section \<open>Library calls\<close>

text \<open>
  The numerical values of the two interpolants come from scipy and are parameters of the
  model: \<open>spline_fn\<close> is \<^verbatim>\<open>CubicSpline(xs, ys, bc_type='natural')\<close>, given as the knots
  and the position it is evaluated at; \<open>interp_fn\<close> is the cubic \<^verbatim>\<open>interp1d\<close> behind
  \<^verbatim>\<open>Series.interpolate(method='cubic')\<close>, which may return NaN.
\<close>

type_synonym spline_fn = "(nat \<times> real) list \<Rightarrow> nat \<Rightarrow> real"
type_synonym interp_fn = "(nat \<times> real) list \<Rightarrow> nat \<Rightarrow> real option"

definition valid_positions :: "real option list \<Rightarrow> nat list" where
  "valid_positions ys = filter (\<lambda>i. ys ! i \<noteq> None) [0..<length ys]"

definition within_limit :: "int \<Rightarrow> nat list \<Rightarrow> nat \<Rightarrow> bool" where
  "within_limit limit valid i = list_ex (\<lambda>j. \<bar>int i - int j\<bar> \<le> limit) valid"

text \<open>
  \<^verbatim>\<open>Series.interpolate(method='cubic', limit_direction='both', limit=limit)\<close> on a column
  with a default integer index. pandas rejects a limit below 1 (before it looks at the
  column); a column without nulls or without values is returned as it is; a cubic \<^verbatim>\<open>interp1d\<close> needs at least four points and
  raises \<^verbatim>\<open>ValueError\<close> on fewer; only null cells are written, and only those within
  \<open>limit\<close> positions of a value.
\<close>

definition interpolate :: "interp_fn \<Rightarrow> int \<Rightarrow> real option list \<Rightarrow> error + real option list" where
  "interpolate interp1d limit ys =
     (if limit < 1 then Inl ValueError
      else let valid = valid_positions ys in
        if valid = [] \<or> length valid = length ys then Inr ys
        else if length valid < 4 then Inl ValueError
        else let pts = map (\<lambda>i. (i, the (ys ! i))) valid in
          Inr (map (\<lambda>i. case ys ! i of
                           Some v \<Rightarrow> Some v
                         | None \<Rightarrow> if within_limit limit valid i then interp1d pts i else None)
                 [0..<length ys]))"

section \<open>The smoother\<close>

type_synonym matrix = "real list list"

text \<open>\<^verbatim>\<open>diags(diagonals, offsets, shape=(m, n))\<close> with scalar diagonals: entry \<open>(i, j)\<close> lies
  on the diagonal of offset \<open>j - i\<close>.\<close>

definition diags :: "real list \<Rightarrow> int list \<Rightarrow> nat \<Rightarrow> nat \<Rightarrow> matrix" where
  "diags diagonals offsets m n =
     map (\<lambda>i. map (\<lambda>j. sum_list (map2 (\<lambda>v k. if int j - int i = k then v else 0) diagonals offsets))
                [0..<n]) [0..<m]"

text \<open>\<^verbatim>\<open>diags(w)\<close>: the square matrix with the vector \<open>w\<close> on its main diagonal.\<close>

definition diags_main :: "real list \<Rightarrow> matrix" where
  "diags_main w = map (\<lambda>i. map (\<lambda>j. if i = j then w ! i else 0) [0..<length w]) [0..<length w]"

fun vdot :: "real list \<Rightarrow> real list \<Rightarrow> real" where
  "vdot (a # u) (b # v) = a * b + vdot u v"
| "vdot _ _ = 0"

definition transpose_m :: "nat \<Rightarrow> matrix \<Rightarrow> matrix" where
  "transpose_m n M = map (\<lambda>j. map (\<lambda>r. r ! j) M) [0..<n]"

definition matmul :: "nat \<Rightarrow> matrix \<Rightarrow> matrix \<Rightarrow> matrix" where
  "matmul n A B = map (\<lambda>r. map (\<lambda>c. vdot r c) (transpose_m n B)) A"

definition mat_scale :: "real \<Rightarrow> matrix \<Rightarrow> matrix" where
  "mat_scale c M = map (map ((*) c)) M"

definition mat_add :: "matrix \<Rightarrow> matrix \<Rightarrow> matrix" where
  "mat_add A B = map2 (map2 (+)) A B"

text \<open>
  \<^verbatim>\<open>spsolve\<close> is modelled by its exact result: Gaussian elimination on the equations
  \<open>(coefficients, right-hand side)\<close>, taking as pivot the first equation whose leading
  coefficient is not zero. With exact numbers the solution found does not depend on the
  pivots chosen. \<open>None\<close> is a singular system.
\<close>

fun lead :: "real list \<times> real \<Rightarrow> real" where
  "lead (a # u, c) = a"
| "lead ([], c) = 0"

definition eliminate :: "real list \<times> real \<Rightarrow> real list \<times> real \<Rightarrow> real list \<times> real" where
  "eliminate p e =
     (let f = lead e / lead p
      in (map2 (\<lambda>a r. a - f * r) (tl (fst e)) (tl (fst p)), snd e - f * snd p))"

fun gauss :: "nat \<Rightarrow> (real list \<times> real) list \<Rightarrow> real list option" where
  "gauss 0 eqs = Some []"
| "gauss (Suc n) eqs =
     (case List.find (\<lambda>e. lead e \<noteq> 0) eqs of
        None \<Rightarrow> None
      | Some p \<Rightarrow>
         (case gauss n (map (eliminate p) (remove1 p eqs)) of
            None \<Rightarrow> None
          | Some ys \<Rightarrow> Some ((snd p - vdot (tl (fst p)) ys) / lead p # ys)))"

text \<open>A NaN in the right-hand side makes every entry of the result NaN, and scipy fills the
  result with NaN (under a warning) when the matrix is singular.\<close>

definition spsolve :: "matrix \<Rightarrow> real option list \<Rightarrow> real option list" where
  "spsolve A b =
     (if list_ex (\<lambda>v. v = None) b then replicate (length b) None
      else case gauss (length b) (zip A (map the b)) of
             None \<Rightarrow> replicate (length b) None
           | Some z \<Rightarrow> map Some z)"

definition smoother_matrix :: "nat \<Rightarrow> real list \<Rightarrow> real \<Rightarrow> matrix" where
  "smoother_matrix n w lambda =
     (let D = diags [1, -2, 1] [0, -1, -2] (n + 2) n;
          W = diags_main w
      in mat_add W (mat_scale lambda (matmul n (transpose_m n D) D)))"

text \<open>\<^verbatim>\<open>whittaker_smooth(x, w, lambda_)\<close>. Adding \<open>W\<close> to a matrix of another shape raises.\<close>

definition whittaker_smooth :: "real option list \<Rightarrow> real list \<Rightarrow> real \<Rightarrow> error + real option list" where
  "whittaker_smooth x w lambda =
     (if length w \<noteq> length x then Inl ValueError
      else Inr (spsolve (smoother_matrix (length x) w lambda)
                        (map2 (\<lambda>wi xi. map_option ((*) wi) xi) w x)))"

section \<open>The gap filler\<close>

text \<open>\<^verbatim>\<open>df.sort_values('date')\<close>, as a stable sort: pandas' default sort is not stable, which
  shows only where two rows have the same date.\<close>

definition sort_values :: "row list \<Rightarrow> row list" where
  "sort_values rs = sort_key (\<lambda>r. day_of (date r)) rs"

definition date_range :: "int \<Rightarrow> int \<Rightarrow> date_cell list" where
  "date_range start end = map Timestamp [start..end]"

definition null_row :: "date_cell \<Rightarrow> row" where
  "null_row d = \<lparr>date = d, MCARI_mean = None, MCARI_stdDev = None, MCARI_min = None,
                 MCARI_max = None, cloud_cover = None, is_interpolated = None\<rparr>"

text \<open>\<^verbatim>\<open>template_df.merge(df, on='date', how='left')\<close>: every template date, with each row of
  \<open>df\<close> on that date, or with nulls when there is none.\<close>

definition merge_left :: "date_cell list \<Rightarrow> row list \<Rightarrow> row list" where
  "merge_left template rs =
     concat (map (\<lambda>d. case filter (\<lambda>r. date r = d) rs of [] \<Rightarrow> [null_row d] | ms \<Rightarrow> ms) template)"

definition isnull :: "row list \<Rightarrow> bool list" where
  "isnull rs = map (\<lambda>r. MCARI_mean r = None) rs"

definition shift :: "bool list \<Rightarrow> bool option list" where
  "shift g = take (length g) (None # map Some g)"

definition ne :: "bool list \<Rightarrow> bool option list \<Rightarrow> bool list" where
  "ne g h = map2 (\<lambda>a b. Some a \<noteq> b) g h"

fun cumsum_from :: "nat \<Rightarrow> bool list \<Rightarrow> nat list" where
  "cumsum_from acc [] = []"
| "cumsum_from acc (b # bs) = (acc + of_bool b) # cumsum_from (acc + of_bool b) bs"

definition cumsum :: "bool list \<Rightarrow> nat list" where
  "cumsum bs = cumsum_from 0 bs"

definition transform_size :: "nat list \<Rightarrow> nat list" where
  "transform_size groups = map (\<lambda>k. count_list groups k) groups"

text \<open>\<^verbatim>\<open>gap_groups = gaps.ne(gaps.shift()).cumsum()\<close> and
  \<^verbatim>\<open>gap_sizes = gaps.groupby(gap_groups).transform('size') * gaps\<close>.\<close>

definition gap_sizes :: "bool list \<Rightarrow> nat list" where
  "gap_sizes gaps =
     (let gap_groups = cumsum (ne gaps (shift gaps))
      in map2 (\<lambda>s g. s * of_bool g) (transform_size gap_groups) gaps)"

text \<open>Lines 85-88: weight 1 on a day with a mean, 0 on a missing day, and 0 wherever the gap
  size exceeds the threshold.\<close>

definition weights :: "bool list \<Rightarrow> int \<Rightarrow> real list" where
  "weights gaps max_gap_days =
     map2 (\<lambda>g s. if int s > max_gap_days then 0 else if g then 0 else 1) gaps (gap_sizes gaps)"

text \<open>Line 91: \<^verbatim>\<open>Series.mean()\<close> skips nulls and is NaN for a column without values;
  \<^verbatim>\<open>fillna\<close> puts it in the null cells. The mean is the exact one: a sum that leaves the
  range of float64 (values near \<open>1e308\<close>), where pandas returns \<open>inf\<close> and the smoother
  then NaN, is outside this model; the lemmas below in which a filled value is a
  number hold for the exact mean, and are used at the examples only.\<close>

definition col_mean :: "real option list \<Rightarrow> real option" where
  "col_mean xs =
     (let vs = map the (filter (\<lambda>v. v \<noteq> None) xs)
      in if vs = [] then None else Some (sum_list vs / real (length vs)))"

definition fillna :: "real option \<Rightarrow> real option list \<Rightarrow> real option list" where
  "fillna v xs = map (\<lambda>x. case x of None \<Rightarrow> v | Some a \<Rightarrow> Some a) xs"

text \<open>Lines 95-110: the new values of the null cells of \<^verbatim>\<open>MCARI_mean\<close>; the other cells
  are not assigned.\<close>

definition fill_mean :: "spline_fn \<Rightarrow> real option list \<Rightarrow> real option list \<Rightarrow> real option list" where
  "fill_mean CubicSpline smoothed means =
     (let valid = valid_positions means in
      if length valid > 3 then
        let spline = CubicSpline (map (\<lambda>i. (i, the (means ! i))) valid) in
        map (\<lambda>i. case means ! i of
                   Some v \<Rightarrow> Some v
                 | None \<Rightarrow> map_option (\<lambda>s. 0.7 * s + (1 - 0.7) * spline i) (smoothed ! i))
            [0..<length means]
      else
        map (\<lambda>i. case means ! i of Some v \<Rightarrow> Some v | None \<Rightarrow> smoothed ! i) [0..<length means])"

fun get_col :: "string \<Rightarrow> row \<Rightarrow> real option" where
  "get_col c r =
     (if c = ''MCARI_min'' then MCARI_min r
      else if c = ''MCARI_max'' then MCARI_max r
      else MCARI_stdDev r)"

fun set_col :: "string \<Rightarrow> real option \<Rightarrow> row \<Rightarrow> row" where
  "set_col c v r =
     (if c = ''MCARI_min'' then r\<lparr>MCARI_min := v\<rparr>
      else if c = ''MCARI_max'' then r\<lparr>MCARI_max := v\<rparr>
      else r\<lparr>MCARI_stdDev := v\<rparr>)"

text \<open>The loop of lines 113-119 over the secondary columns that the frame has; an exception
  of \<^verbatim>\<open>interpolate\<close> leaves the loop.\<close>

fun interpolate_columns ::
  "interp_fn \<Rightarrow> int \<Rightarrow> string list \<Rightarrow> string list \<Rightarrow> row list \<Rightarrow> error + row list" where
  "interpolate_columns interp1d limit cols [] rs = Inr rs"
| "interpolate_columns interp1d limit cols (c # cs) rs =
     (if c \<in> set cols then
        (case interpolate interp1d limit (map (get_col c) rs) of
           Inl e \<Rightarrow> Inl e
         | Inr vs \<Rightarrow> interpolate_columns interp1d limit cols cs (map2 (set_col c) vs rs))
      else interpolate_columns interp1d limit cols cs rs)"

text \<open>Lines 61-72: the rows sorted by date, left-joined onto the daily calendar from the
  first to the last date.\<close>

definition calendar :: "row list \<Rightarrow> row list" where
  "calendar rs =
     (let sorted_rows = sort_values rs;
          ds = days sorted_rows
      in merge_left (date_range (Min (set ds)) (Max (set ds))) sorted_rows)"

text \<open>\<^verbatim>\<open>merged_df[gap_sizes <= max_gap_days]\<close>, on any column of the frame.\<close>

definition keep :: "int \<Rightarrow> nat list \<Rightarrow> 'a list \<Rightarrow> 'a list" where
  "keep max_gap_days sizes rs =
     map snd (filter (\<lambda>(s, r). int s \<le> max_gap_days) (zip sizes rs))"

text \<open>\<^verbatim>\<open>merged_df['is_interpolated'] = gaps\<close> adds the column to a frame that has none of
  that name.\<close>

definition add_column :: "string \<Rightarrow> string list \<Rightarrow> string list" where
  "add_column c cols = (if c \<in> set cols then cols else cols @ [c])"

text \<open>
  \<^verbatim>\<open>fill_gaps(df, max_gap_days)\<close>. The first component of the result is the caller's frame
  after the call, the second what the call returns or the exception it raises.
\<close>

definition fill_gaps ::
  "spline_fn \<Rightarrow> interp_fn \<Rightarrow> frame \<Rightarrow> int \<Rightarrow> frame \<times> (error + frame)" where
  "fill_gaps CubicSpline interp1d df max_gap_days =
     (if empty_df df then (df, Inr df)
      else
        let df1 = convert_dates df;
            merged = calendar (rows df1);
            gaps = isnull merged
        in if \<not> list_ex (\<lambda>g. g) gaps then (df1, Inr \<lparr>columns = columns df, rows = merged\<rparr>)
        else
          let sizes = gap_sizes gaps;
              w = weights gaps max_gap_days;
              means = map MCARI_mean merged;
              x = fillna (col_mean means) means
          in case whittaker_smooth x w 100 of
               Inl e \<Rightarrow> (df1, Inl e)
             | Inr smoothed \<Rightarrow>
                (let filled = map2 (\<lambda>v r. r\<lparr>MCARI_mean := v\<rparr>)
                                (fill_mean CubicSpline smoothed means) merged
                 in case interpolate_columns interp1d max_gap_days (columns df)
                           [''MCARI_min'', ''MCARI_max'', ''MCARI_stdDev''] filled of
                      Inl e \<Rightarrow> (df1, Inl e)
                    | Inr rs \<Rightarrow>
                       (let flagged = map2 (\<lambda>g r. r\<lparr>is_interpolated := Some g\<rparr>) gaps rs
                        in (df1, Inr \<lparr>columns = add_column ''is_interpolated'' (columns df),
                                      rows = keep max_gap_days sizes flagged\<rparr>))))"

section \<open>The validator\<close>

fun cell_isnull :: "string \<Rightarrow> row \<Rightarrow> bool" where
  "cell_isnull c r =
     (if c = ''MCARI_stdDev'' then MCARI_stdDev r = None
      else if c = ''MCARI_min'' then MCARI_min r = None
      else if c = ''MCARI_max'' then MCARI_max r = None
      else if c = ''cloud_cover'' then cloud_cover r = None
      else if c = ''is_interpolated'' then is_interpolated r = None
      else False)"

definition any_null :: "frame \<Rightarrow> bool" where
  "any_null df =
     list_ex (\<lambda>r. MCARI_mean r = None \<or> list_ex (\<lambda>c. cell_isnull c r) (columns df)) (rows df)"

fun str_nat :: "nat \<Rightarrow> string" where
  "str_nat n =
     (if n < 10 then [char_of (48 + n)] else str_nat (n div 10) @ [char_of (48 + n mod 10)])"

definition str_int :: "int \<Rightarrow> string" where
  "str_int i = (if i < 0 then CHR ''-'' # str_nat (nat (- i)) else str_nat (nat i))"

fun diff :: "int list \<Rightarrow> int list" where
  "diff (a # b # ds) = (b - a) # diff (b # ds)"
| "diff _ = []"

text \<open>
  \<^verbatim>\<open>validate_results(df)\<close>: the caller's frame after the call, and the verdict with the
  issues. Comparisons with NaN are false.
\<close>

definition validate_results :: "frame \<Rightarrow> frame \<times> (bool \<times> string list)" where
  "validate_results df =
     (if empty_df df then (df, (False, [''No valid data found'']))
      else
        let issues1 = (if any_null df then [''Missing values detected in the data''] else []);
            df1 = convert_dates df;
            means = map MCARI_mean (rows df1);
            issues2 = issues1 @
              (if list_ex (\<lambda>m. case m of Some v \<Rightarrow> v > 2 | None \<Rightarrow> False) means
                  \<or> list_ex (\<lambda>m. case m of Some v \<Rightarrow> v < - 2 | None \<Rightarrow> False) means
               then [''Unrealistic MCARI values detected''] else []);
            ds = days (rows df1);
            span = Max (set ds) - Min (set ds);
            issues3 = issues2 @
              (if span < 30 then [''Short temporal coverage: '' @ str_int span @ '' days''] else []);
            gaps = diff (days (sort_values (rows df1)));
            issues4 = issues3 @
              (if list_ex (\<lambda>g. g > 30) gaps then [''Large temporal gaps detected (>30 days)''] else [])
        in (df1, (length issues4 = 0, issues4)))"

section \<open>Example inputs\<close>

text \<open>Placeholders for the two scipy interpolants, for the examples below, none of which
  depends on the numbers an interpolant returns.\<close>

definition flat_spline :: spline_fn where
  "flat_spline pts i = 0"

definition flat_interp :: interp_fn where
  "flat_interp pts i = Some 0"

definition observation :: "date_cell \<Rightarrow> real \<Rightarrow> row" where
  "observation d v = (null_row d)\<lparr>MCARI_mean := Some v\<rparr>"

definition no_frame :: frame where
  "no_frame = \<lparr>columns = [], rows = []\<rparr>"

definition one_row :: frame where
  "one_row = \<lparr>columns = [], rows = [observation (DateStr 0) 1]\<rparr>"

definition two_obs :: frame where
  "two_obs = \<lparr>columns = [], rows = [observation (DateStr 2) 1, observation (DateStr 0) 1]\<rparr>"

definition two_obs_filled :: frame where
  "two_obs_filled = \<lparr>columns = [''is_interpolated''],
     rows = [(observation (Timestamp 0) 1)\<lparr>is_interpolated := Some False\<rparr>,
             (observation (Timestamp 1) (4 / 503))\<lparr>is_interpolated := Some True\<rparr>,
             (observation (Timestamp 2) 1)\<lparr>is_interpolated := Some False\<rparr>]\<rparr>"

text \<open>Three observations with all their statistics in a window of 40 days, and the three
  observations of the end-to-end example of the specification, which gives their means only.\<close>

definition full_observation :: "date_cell \<Rightarrow> real \<Rightarrow> real \<Rightarrow> real \<Rightarrow> real \<Rightarrow> real \<Rightarrow> row" where
  "full_observation d mean sd lo hi cc =
     \<lparr>date = d, MCARI_mean = Some mean, MCARI_stdDev = Some sd, MCARI_min = Some lo,
      MCARI_max = Some hi, cloud_cover = Some cc, is_interpolated = None\<rparr>"

definition three_obs :: frame where
  "three_obs = \<lparr>columns = [''MCARI_stdDev'', ''MCARI_min'', ''MCARI_max'', ''cloud_cover''],
     rows = [full_observation (DateStr 0) 0.3 0.1 0.1 0.5 5,
             full_observation (DateStr 20) 0.5 0.1 0.3 0.7 10,
             full_observation (DateStr 40) 0.4 0.1 0.2 0.6 0]\<rparr>"

definition spec_example :: frame where
  "spec_example = \<lparr>columns = [], rows = [observation (DateStr 0) 0.3, observation (DateStr 10) 0.5,
      observation (DateStr 50) 0.4]\<rparr>"

text \<open>Observations on the days 0, 1 and 3: one missing day, and an observed day strictly
  between the first and the last.\<close>

definition gap_obs :: frame where
  "gap_obs = \<lparr>columns = [], rows = [observation (DateStr 0) 1, observation (DateStr 1) 1,
      observation (DateStr 3) 1]\<rparr>"

text \<open>The dates of the frame a call returns.\<close>

definition result_days :: "error + frame \<Rightarrow> error + int list" where
  "result_days res = map_sum id (\<lambda>out. days (rows out)) res"

section \<open>Notions used in the statements and proofs\<close>

text \<open>
  The length of the maximal run of missing days around the day \<open>d\<close>, in the words of the
  specification: the days strictly between the last observed day before \<open>d\<close> and the first
  observed day after it.
\<close>

definition missing_run :: "int list \<Rightarrow> int \<Rightarrow> int" where
  "missing_run ds d =
     Min (set (filter (\<lambda>b. d < b) ds)) - Max (set (filter (\<lambda>a. a < d) ds)) - 1"

text \<open>A real observation, as the acquisition step delivers it: a row with a mean and without
  an interpolation flag.\<close>

definition real_observation :: "row \<Rightarrow> bool" where
  "real_observation r = (MCARI_mean r \<noteq> None \<and> is_interpolated r = None)"

text \<open>A system of equations in \<open>n\<close> unknowns, and one whose homogeneous form has the zero
  vector as its only solution.\<close>

definition wf_eqs :: "nat \<Rightarrow> (real list \<times> real) list \<Rightarrow> bool" where
  "wf_eqs n eqs = (\<forall>e\<in>set eqs. length (fst e) = n)"

definition kernel_trivial :: "nat \<Rightarrow> (real list \<times> real) list \<Rightarrow> bool" where
  "kernel_trivial n eqs =
     (\<forall>x. length x = n \<and> (\<forall>e\<in>set eqs. vdot (fst e) x = 0) \<longrightarrow> x = replicate n 0)"

text \<open>The entries of the difference matrix \<open>D\<close> that \<open>whittaker_smooth\<close> builds, the entries of
  \<open>D\<^sup>T D\<close>, and a vector read as zero outside its index range.\<close>

definition dcoef :: "nat \<Rightarrow> nat \<Rightarrow> real" where
  "dcoef i j = (if i = j then 1 else if i = j + 1 then - 2 else if i = j + 2 then 1 else 0)"

definition gram :: "nat \<Rightarrow> nat \<Rightarrow> nat \<Rightarrow> real" where
  "gram m j k = (\<Sum>i<m. dcoef i j * dcoef i k)"

definition pad :: "real list \<Rightarrow> int \<Rightarrow> real" where
  "pad z k = (if 0 \<le> k \<and> k < int (length z) then z ! nat k else 0)"

text \<open>What the interpolation of the secondary columns leaves of a row, and what the filled
  row \<open>f\<close> keeps of the calendar row \<open>m\<close> whose mean was null or not (\<open>g\<close>).\<close>

definition untouched :: "row \<Rightarrow> row \<Rightarrow> bool" where
  "untouched r r' =
     (date r' = date r \<and> MCARI_mean r' = MCARI_mean r \<and> cloud_cover r' = cloud_cover r
      \<and> is_interpolated r' = is_interpolated r
      \<and> (MCARI_min r \<noteq> None \<longrightarrow> MCARI_min r' = MCARI_min r)
      \<and> (MCARI_max r \<noteq> None \<longrightarrow> MCARI_max r' = MCARI_max r)
      \<and> (MCARI_stdDev r \<noteq> None \<longrightarrow> MCARI_stdDev r' = MCARI_stdDev r))"

definition filled_from :: "row \<Rightarrow> bool \<Rightarrow> row \<Rightarrow> bool" where
  "filled_from m g f =
     (date f = date m \<and> cloud_cover f = cloud_cover m \<and> is_interpolated f = Some g
      \<and> (MCARI_mean m \<noteq> None \<longrightarrow> MCARI_mean f = MCARI_mean m)
      \<and> (MCARI_min m \<noteq> None \<longrightarrow> MCARI_min f = MCARI_min m)
      \<and> (MCARI_max m \<noteq> None \<longrightarrow> MCARI_max f = MCARI_max m)
      \<and> (MCARI_stdDev m \<noteq> None \<longrightarrow> MCARI_stdDev f = MCARI_stdDev m))"

section \<open>Gaussian elimination\<close>

lemma vdot_zeros [simp]: "vdot u (replicate n 0) = 0"
proof (induction u arbitrary: n)
  case Nil then show ?case by simp
next
  case (Cons a u) then show ?case by (cases n) simp_all
qed

lemma vdot_sub:
  "length v = length u \<Longrightarrow> vdot (map2 (\<lambda>a r. a - f * r) v u) ys = vdot v ys - f * vdot u ys"
proof (induction v u arbitrary: ys rule: list_induct2)
  case Nil then show ?case by simp
next
  case (Cons a v b u)
  then show ?case by (cases ys) (simp_all add: algebra_simps)
qed

lemma find_pivot:
  "List.find (\<lambda>e. lead e \<noteq> 0) eqs = Some p \<Longrightarrow> p \<in> set eqs \<and> lead p \<noteq> 0"
  by (auto simp: find_Some_iff)

lemma wf_eliminate:
  assumes "wf_eqs (Suc n) eqs" "p \<in> set eqs"
  shows "wf_eqs n (map (eliminate p) (remove1 p eqs))"
proof -
  have "length (fst (eliminate p e)) = n" if "e \<in> set eqs" for e
    using assms that by (simp add: wf_eqs_def eliminate_def Let_def)
  moreover have "set (remove1 p eqs) \<subseteq> set eqs" by (rule set_remove1_subset)
  ultimately show ?thesis by (auto simp: wf_eqs_def)
qed

lemma eliminate_row:
  assumes "length (fst p) = Suc n" "length (fst e) = Suc n" "lead p \<noteq> 0"
  shows "vdot (fst (eliminate p e)) ys
         = vdot (fst e) (t # ys) - (lead e / lead p) * vdot (fst p) (t # ys)"
    and "snd (eliminate p e) = snd e - (lead e / lead p) * snd p"
proof -
  obtain a u c where p: "p = (a # u, c)" using assms(1) by (cases p, cases "fst p") auto
  obtain b v d where e: "e = (b # v, d)" using assms(2) by (cases e, cases "fst e") auto
  have len: "length v = length u" using assms p e by simp
  have a: "a \<noteq> 0" using assms(3) p by simp
  show "vdot (fst (eliminate p e)) ys
         = vdot (fst e) (t # ys) - (lead e / lead p) * vdot (fst p) (t # ys)"
  proof -
    have "fst (eliminate p e) = map2 (\<lambda>x r. x - b / a * r) v u"
      by (simp add: p e eliminate_def)
    then have "vdot (fst (eliminate p e)) ys = vdot v ys - b / a * vdot u ys"
      using vdot_sub [OF len, of "b / a" ys] by simp
    moreover have "b / a * (a * t) = b * t" using a by simp
    ultimately show ?thesis
      by (simp add: p e algebra_simps)
  qed
  show "snd (eliminate p e) = snd e - (lead e / lead p) * snd p"
    by (simp add: p e eliminate_def)
qed

lemma pivot_row:
  assumes "length (fst p) = Suc n" "lead p \<noteq> 0"
  shows "vdot (fst p) ((c - vdot (tl (fst p)) ys) / lead p # ys) = c"
proof -
  obtain a u d where p: "p = (a # u, d)" using assms(1) by (cases p, cases "fst p") auto
  show ?thesis using assms(2) by (simp add: p)
qed

lemma gauss_length: "gauss n eqs = Some x \<Longrightarrow> length x = n"
  by (induction n arbitrary: eqs x) (auto split: option.splits)

lemma gauss_sound:
  "gauss n eqs = Some x \<Longrightarrow> wf_eqs n eqs \<Longrightarrow> length eqs = n
     \<Longrightarrow> \<forall>e\<in>set eqs. vdot (fst e) x = snd e"
proof (induction n arbitrary: eqs x)
  case 0 then show ?case by simp
next
  case (Suc n)
  from Suc.prems(1) obtain p ys where
    f: "List.find (\<lambda>e. lead e \<noteq> 0) eqs = Some p" and
    g: "gauss n (map (eliminate p) (remove1 p eqs)) = Some ys" and
    x: "x = (snd p - vdot (tl (fst p)) ys) / lead p # ys"
    by (auto split: option.splits)
  have p: "p \<in> set eqs" "lead p \<noteq> 0" using find_pivot [OF f] by auto
  have lp: "length (fst p) = Suc n" using Suc.prems(2) p by (simp add: wf_eqs_def)
  have "length (map (eliminate p) (remove1 p eqs)) = n"
    using Suc.prems(3) p by (simp add: length_remove1)
  from Suc.IH [OF g wf_eliminate [OF Suc.prems(2) p(1)] this]
  have red: "\<forall>e\<in>set (remove1 p eqs). vdot (fst (eliminate p e)) ys = snd (eliminate p e)"
    by simp
  have px: "vdot (fst p) x = snd p" unfolding x by (rule pivot_row [OF lp p(2)])
  show ?case
  proof
    fix e assume e: "e \<in> set eqs"
    show "vdot (fst e) x = snd e"
    proof (cases "e = p")
      case True then show ?thesis using px by simp
    next
      case False
      then have er: "e \<in> set (remove1 p eqs)" using e by simp
      have le: "length (fst e) = Suc n" using Suc.prems(2) e by (simp add: wf_eqs_def)
      from red er have "vdot (fst (eliminate p e)) ys = snd (eliminate p e)" by blast
      then show ?thesis
        using eliminate_row(1) [OF lp le p(2), of ys "(snd p - vdot (tl (fst p)) ys) / lead p"]
          eliminate_row(2) [OF lp le p(2)] px
        by (simp add: x)
    qed
  qed
qed

lemma gauss_complete:
  "wf_eqs n eqs \<Longrightarrow> kernel_trivial n eqs \<Longrightarrow> gauss n eqs \<noteq> None"
proof (induction n arbitrary: eqs)
  case 0 then show ?case by simp
next
  case (Suc n)
  have "\<exists>e\<in>set eqs. lead e \<noteq> 0"
  proof (rule ccontr)
    assume "\<not> (\<exists>e\<in>set eqs. lead e \<noteq> 0)"
    then have z: "\<forall>e\<in>set eqs. lead e = 0" by simp
    have "\<forall>e\<in>set eqs. vdot (fst e) (1 # replicate n 0) = 0"
    proof
      fix e assume e: "e \<in> set eqs"
      then have "length (fst e) = Suc n" using Suc.prems(1) by (simp add: wf_eqs_def)
      then obtain b v d where "e = (b # v, d)" by (cases e, cases "fst e") auto
      then show "vdot (fst e) (1 # replicate n 0) = 0" using z e by auto
    qed
    then have "1 # replicate n 0 = replicate (Suc n) (0::real)"
      using Suc.prems(2) [unfolded kernel_trivial_def, rule_format, of "1 # replicate n 0"]
      by simp
    then show False by simp
  qed
  then obtain p where f: "List.find (\<lambda>e. lead e \<noteq> 0) eqs = Some p"
    by (cases "List.find (\<lambda>e. lead e \<noteq> 0) eqs") (auto simp: find_None_iff)
  have p: "p \<in> set eqs" "lead p \<noteq> 0" using find_pivot [OF f] by auto
  have lp: "length (fst p) = Suc n" using Suc.prems(1) p by (simp add: wf_eqs_def)
  have "kernel_trivial n (map (eliminate p) (remove1 p eqs))"
    unfolding kernel_trivial_def
  proof (intro allI impI)
    fix y assume y: "length y = n \<and> (\<forall>e\<in>set (map (eliminate p) (remove1 p eqs)). vdot (fst e) y = 0)"
    define t where "t = (0 - vdot (tl (fst p)) y) / lead p"
    have pt: "vdot (fst p) (t # y) = 0" unfolding t_def by (rule pivot_row [OF lp p(2)])
    have "\<forall>e\<in>set eqs. vdot (fst e) (t # y) = 0"
    proof
      fix e assume e: "e \<in> set eqs"
      show "vdot (fst e) (t # y) = 0"
      proof (cases "e = p")
        case True then show ?thesis using pt by simp
      next
        case False
        then have "e \<in> set (remove1 p eqs)" using e by simp
        then have r: "vdot (fst (eliminate p e)) y = 0" using y by simp
        have le: "length (fst e) = Suc n" using Suc.prems(1) e by (simp add: wf_eqs_def)
        show ?thesis using eliminate_row(1) [OF lp le p(2), of y t] pt r by simp
      qed
    qed
    then have "t # y = replicate (Suc n) 0"
      using Suc.prems(2) [unfolded kernel_trivial_def, rule_format, of "t # y"] y by simp
    then show "y = replicate n 0" by simp
  qed
  from Suc.IH [OF wf_eliminate [OF Suc.prems(1) p(1)] this] f
  show ?case by (auto split: option.splits)
qed

section \<open>The matrix of the smoother\<close>

lemma vdot_sum: "length u = length v \<Longrightarrow> vdot u v = (\<Sum>i<length u. u ! i * v ! i)"
proof (induction u v rule: list_induct2)
  case Nil then show ?case by simp
next
  case (Cons a u b v)
  then show ?case by (simp add: sum.lessThan_Suc_shift del: sum.lessThan_Suc)
qed

lemma diags_col:
  "k < n \<Longrightarrow> map (\<lambda>r. r ! k) (diags [1, - 2, 1] [0, - 1, - 2] m n) = map (\<lambda>i. dcoef i k) [0..<m]"
  by (auto simp: diags_def dcoef_def)

lemma gram_row:
  assumes "j < n"
  shows "matmul n (transpose_m n (diags [1, - 2, 1] [0, - 1, - 2] m n))
           (diags [1, - 2, 1] [0, - 1, - 2] m n) ! j
         = map (\<lambda>k. gram m j k) [0..<n]"
proof -
  have dot: "vdot (map (\<lambda>i. dcoef i j) [0..<m]) (map (\<lambda>i. dcoef i k) [0..<m]) = gram m j k" for k
    unfolding gram_def by (subst vdot_sum) simp_all
  show ?thesis
    using assms by (simp add: matmul_def transpose_m_def diags_col dot cong: map_cong)
qed

lemma length_gram:
  "length (matmul n (transpose_m n D) D) = n"
  by (simp add: matmul_def transpose_m_def)

lemma length_smoother_matrix: "length w = n \<Longrightarrow> length (smoother_matrix n w lam) = n"
  by (simp add: smoother_matrix_def mat_add_def mat_scale_def length_gram diags_main_def Let_def)

lemma smoother_matrix_row:
  assumes "length w = n" "j < n"
  shows "smoother_matrix n w lam ! j =
         map (\<lambda>k. (if j = k then w ! j else 0) + lam * gram (n + 2) j k) [0..<n]"
proof -
  define G where "G = matmul n (transpose_m n (diags [1, - 2, 1] [0, - 1, - 2] (n + 2) n))
           (diags [1, - 2, 1] [0, - 1, - 2] (n + 2) n)"
  have G: "G ! j = map (\<lambda>k. gram (n + 2) j k) [0..<n]" "length G = n"
    unfolding G_def using gram_row [OF assms(2)] length_gram by auto
  have "smoother_matrix n w lam = mat_add (diags_main w) (mat_scale lam G)"
    by (simp only: smoother_matrix_def Let_def G_def)
  then show ?thesis
    using assms G
    by (intro nth_equalityI) (simp_all add: mat_add_def mat_scale_def diags_main_def)
qed

lemma smoother_matrix_vdot:
  assumes "length w = n" "j < n" "length x = n"
  shows "vdot (smoother_matrix n w lam ! j) x =
         w ! j * x ! j + lam * (\<Sum>k<n. gram (n + 2) j k * x ! k)"
proof -
  have "vdot (smoother_matrix n w lam ! j) x =
        (\<Sum>k<n. ((if j = k then w ! j else 0) + lam * gram (n + 2) j k) * x ! k)"
    using assms by (subst vdot_sum) (simp_all add: smoother_matrix_row)
  also have "\<dots> = (\<Sum>k<n. (if j = k then w ! j * x ! k else 0) + lam * (gram (n + 2) j k * x ! k))"
    by (intro sum.cong refl) (simp add: algebra_simps)
  also have "\<dots> = (\<Sum>k<n. (if j = k then w ! j * x ! k else 0))
                  + lam * (\<Sum>k<n. gram (n + 2) j k * x ! k)"
    by (simp only: sum.distrib sum_distrib_left)
  also have "(\<Sum>k<n. (if j = k then w ! j * x ! k else 0)) = w ! j * x ! j"
    using assms(2) by simp
  finally show ?thesis .
qed

lemma gram_quadratic:
  "(\<Sum>j<n. x ! j * (\<Sum>k<n. gram m j k * x ! k)) = (\<Sum>i<m. (\<Sum>j<n. dcoef i j * x ! j)\<^sup>2)"
proof -
  have "(\<Sum>j<n. x ! j * (\<Sum>k<n. gram m j k * x ! k))
             = (\<Sum>j<n. \<Sum>k<n. \<Sum>i<m. (dcoef i j * x ! j) * (dcoef i k * x ! k))"
    by (simp add: gram_def sum_distrib_left sum_distrib_right algebra_simps)
  also have "\<dots> = (\<Sum>j<n. \<Sum>i<m. \<Sum>k<n. (dcoef i j * x ! j) * (dcoef i k * x ! k))"
    by (intro sum.cong refl sum.swap)
  also have "\<dots> = (\<Sum>i<m. \<Sum>j<n. \<Sum>k<n. (dcoef i j * x ! j) * (dcoef i k * x ! k))"
    by (rule sum.swap)
  also have "\<dots> = (\<Sum>i<m. (\<Sum>j<n. dcoef i j * x ! j)\<^sup>2)"
    by (simp add: power2_eq_square sum_product)
  finally show ?thesis .
qed

lemma quadratic_form:
  assumes "length w = n" "length x = n"
  shows "(\<Sum>j<n. x ! j * vdot (smoother_matrix n w lam ! j) x) =
         (\<Sum>j<n. w ! j * (x ! j)\<^sup>2) + lam * (\<Sum>i<n + 2. (\<Sum>j<n. dcoef i j * x ! j)\<^sup>2)"
proof -
  have "(\<Sum>j<n. x ! j * vdot (smoother_matrix n w lam ! j) x) =
        (\<Sum>j<n. w ! j * (x ! j)\<^sup>2 + lam * (x ! j * (\<Sum>k<n. gram (n + 2) j k * x ! k)))"
    using assms by (intro sum.cong) (simp_all add: smoother_matrix_vdot power2_eq_square algebra_simps)
  also have "\<dots> = (\<Sum>j<n. w ! j * (x ! j)\<^sup>2)
                 + lam * (\<Sum>j<n. x ! j * (\<Sum>k<n. gram (n + 2) j k * x ! k))"
    by (simp add: sum.distrib sum_distrib_left)
  finally show ?thesis by (simp only: gram_quadratic)
qed

lemma dcoef_triangular:
  assumes "length x = n" "i < n" "\<forall>j<i. x ! j = 0" "(\<Sum>j<n. dcoef i j * x ! j) = 0"
  shows "x ! i = 0"
proof -
  have "(\<Sum>j<n. dcoef i j * x ! j) = dcoef i i * x ! i + (\<Sum>j\<in>{..<n} - {i}. dcoef i j * x ! j)"
    using assms(2) by (simp add: sum.remove)
  moreover have "(\<Sum>j\<in>{..<n} - {i}. dcoef i j * x ! j) = 0"
  proof (rule sum.neutral, rule ballI)
    fix j assume "j \<in> {..<n} - {i}"
    then consider "j < i" | "i < j" by force
    then show "dcoef i j * x ! j = 0"
      using assms(3) by cases (simp_all add: dcoef_def)
  qed
  ultimately show ?thesis using assms(4) by (simp add: dcoef_def)
qed

lemma smoother_kernel_trivial:
  assumes "length w = n" "\<forall>i<n. 0 \<le> w ! i" "0 < lam" and lb: "length b = n"
  shows "kernel_trivial n (zip (smoother_matrix n w lam) b)"
  unfolding kernel_trivial_def
proof (intro allI impI)
  fix x assume a: "length x = n \<and> (\<forall>e\<in>set (zip (smoother_matrix n w lam) b). vdot (fst e) x = 0)"
  then have lx: "length x = n" by simp
  have lA: "length (smoother_matrix n w lam) = n" by (rule length_smoother_matrix [OF assms(1)])
  have row0: "vdot (smoother_matrix n w lam ! j) x = 0" if "j < n" for j
  proof -
    have "(smoother_matrix n w lam ! j, b ! j) \<in> set (zip (smoother_matrix n w lam) b)"
      using that lA lb by (auto simp: set_zip)
    then show ?thesis using a by force
  qed
  have s0: "(\<Sum>j<n. x ! j * vdot (smoother_matrix n w lam ! j) x) = 0"
    by (rule sum.neutral) (simp add: row0)
  define m where "m = n + 2"
  define S where "S = (\<Sum>i<m. (\<Sum>j<n. dcoef i j * x ! j)\<^sup>2)"
  have q: "(\<Sum>j<n. w ! j * (x ! j)\<^sup>2) + lam * S = 0"
    using quadratic_form [OF assms(1) lx, of lam] s0 by (simp only: m_def S_def)
  have p1: "0 \<le> (\<Sum>j<n. w ! j * (x ! j)\<^sup>2)"
    using assms(2) by (intro sum_nonneg) simp
  have p2: "0 \<le> S"
    unfolding S_def by (intro sum_nonneg) simp
  have "lam * S = 0"
    using q p1 p2 assms(3) by (smt (verit) mult_nonneg_nonneg)
  then have "S = 0"
    using assms(3) by simp
  then have "\<forall>i\<in>{..<m}. (\<Sum>j<n. dcoef i j * x ! j)\<^sup>2 = 0"
    unfolding S_def by (subst (asm) sum_nonneg_eq_0_iff) simp_all
  then have z: "(\<Sum>j<n. dcoef i j * x ! j) = 0" if "i < n" for i
    using that by (simp add: m_def)
  have "x ! i = 0" if "i < n" for i
    using that
  proof (induction i rule: less_induct)
    case (less i)
    then have "\<forall>j<i. x ! j = 0" by simp
    then show ?case using dcoef_triangular [OF lx less.prems _ z] less.prems by simp
  qed
  then show "x = replicate n 0"
    using lx by (intro nth_equalityI) simp_all
qed

lemma dcoef_split:
  "dcoef i j = (if i = j then 1 else 0) + (if i = j + 1 then - 2 else 0) + (if i = j + 2 then 1 else 0)"
  by (simp add: dcoef_def)

lemma sum_dcoef_col:
  assumes "j + 2 < m"
  shows "(\<Sum>i<m. dcoef i j * y i) = y j - 2 * y (j + 1) + y (j + 2)"
proof -
  have "(\<Sum>i<m. dcoef i j * y i) =
        (\<Sum>i<m. (if i = j then y i else 0) + (if i = j + 1 then - 2 * y i else 0)
                + (if i = j + 2 then y i else 0))"
    by (intro sum.cong refl) (simp add: dcoef_def)
  also have "\<dots> = y j - 2 * y (j + 1) + y (j + 2)"
    using assms by (simp add: sum.distrib)
  finally show ?thesis .
qed

lemma sum_dcoef_row:
  assumes "length z = n"
  shows "(\<Sum>k<n. dcoef i k * z ! k) = pad z (int i) - 2 * pad z (int i - 1) + pad z (int i - 2)"
proof -
  have "(\<Sum>k<n. dcoef i k * z ! k) =
        (\<Sum>k<n. (if k = i then z ! k else 0) + (if i = k + 1 then - 2 * z ! k else 0)
                + (if i = k + 2 then z ! k else 0))"
    by (intro sum.cong refl) (simp add: dcoef_def)
  also have "\<dots> = (\<Sum>k<n. if k = i then z ! k else 0) + (\<Sum>k<n. if i = k + 1 then - 2 * z ! k else 0)
                + (\<Sum>k<n. if i = k + 2 then z ! k else 0)"
    by (simp add: sum.distrib)
  also have "(\<Sum>k<n. if k = i then z ! k else 0) = pad z (int i)"
    using assms by (simp add: pad_def)
  also have "(\<Sum>k<n. if i = k + 1 then - 2 * z ! k else 0) = - 2 * pad z (int i - 1)"
  proof (cases i)
    case 0 then show ?thesis by (simp add: pad_def)
  next
    case (Suc i')
    have "(\<Sum>k<n. if i = k + 1 then - 2 * z ! k else 0) = (\<Sum>k<n. if k = i' then - 2 * z ! k else 0)"
      by (intro sum.cong refl) (auto simp: Suc)
    then show ?thesis using assms by (simp add: pad_def Suc)
  qed
  also have "(\<Sum>k<n. if i = k + 2 then z ! k else 0) = pad z (int i - 2)"
  proof (cases "i < 2")
    case True then show ?thesis by (simp add: pad_def)
  next
    case False
    then obtain i' where i: "i = i' + 2" by (metis add.commute le_Suc_ex not_less)
    have "(\<Sum>k<n. if i = k + 2 then z ! k else 0) = (\<Sum>k<n. if k = i' then z ! k else 0)"
      by (intro sum.cong refl) (auto simp: i)
    then show ?thesis using assms by (simp add: pad_def i)
  qed
  finally show ?thesis by simp
qed

lemma gram_apply:
  assumes "length z = n" "j < n"
  shows "(\<Sum>k<n. gram (n + 2) j k * z ! k) =
         pad z (int j - 2) - 4 * pad z (int j - 1) + 6 * pad z (int j)
           - 4 * pad z (int j + 1) + pad z (int j + 2)"
proof -
  define m where "m = n + 2"
  have jm: "j + 2 < m" using assms(2) by (simp add: m_def)
  have "(\<Sum>k<n. gram m j k * z ! k) = (\<Sum>k<n. \<Sum>i<m. dcoef i j * (dcoef i k * z ! k))"
    by (simp add: gram_def sum_distrib_right mult.assoc)
  also have "\<dots> = (\<Sum>i<m. \<Sum>k<n. dcoef i j * (dcoef i k * z ! k))"
    by (rule sum.swap)
  also have "\<dots> = (\<Sum>i<m. dcoef i j * (\<Sum>k<n. dcoef i k * z ! k))"
    by (simp add: sum_distrib_left)
  also have "\<dots> = (\<Sum>i<m. dcoef i j * (pad z (int i) - 2 * pad z (int i - 1) + pad z (int i - 2)))"
    by (simp only: sum_dcoef_row [OF assms(1)])
  also have "\<dots> = (pad z (int j) - 2 * pad z (int j - 1) + pad z (int j - 2))
                  - 2 * (pad z (int (j + 1)) - 2 * pad z (int (j + 1) - 1) + pad z (int (j + 1) - 2))
                  + (pad z (int (j + 2)) - 2 * pad z (int (j + 2) - 1) + pad z (int (j + 2) - 2))"
    by (rule sum_dcoef_col [OF jm])
  also have "\<dots> = pad z (int j - 2) - 4 * pad z (int j - 1) + 6 * pad z (int j)
           - 4 * pad z (int j + 1) + pad z (int j + 2)"
    by (simp add: algebra_simps)
  finally show ?thesis by (simp only: m_def)
qed


lemma smoother_solves:
  assumes "length x = n" "length w = n" "list_all (\<lambda>v. v \<noteq> None) x" "list_all (\<lambda>v. 0 \<le> v) w" "0 < lam"
  shows "\<exists>z. whittaker_smooth x w lam = Inr (map Some z) \<and> length z = n \<and>
           (\<forall>i<n. vdot (smoother_matrix n w lam ! i) z = w ! i * the (x ! i))"
proof -
  define A where "A = smoother_matrix n w lam"
  define b where "b = map2 (\<lambda>wi xi. map_option ((*) wi) xi) w x"
  define b' where "b' = map the b"
  have lb: "length b = n" "length b' = n" using assms by (simp_all add: b_def b'_def)
  have bi: "b ! i = Some (w ! i * the (x ! i))" if "i < n" for i
    using that assms by (auto simp: b_def list_all_length)
  have nonan: "\<not> list_ex (\<lambda>v. v = None) b"
    using bi lb by (auto simp: list_ex_iff in_set_conv_nth)
  have lA: "length A = n" unfolding A_def by (rule length_smoother_matrix [OF assms(2)])
  have w0: "\<forall>i<n. 0 \<le> w ! i" using assms by (simp add: list_all_length)
  have "length (A ! i) = n" if "i < n" for i
    unfolding A_def by (simp add: smoother_matrix_row [OF assms(2) that])
  then have wf: "wf_eqs n (zip A b')"
    using lA lb by (auto simp: wf_eqs_def set_zip)
  have "kernel_trivial n (zip A b')"
    unfolding A_def by (rule smoother_kernel_trivial [OF assms(2) w0 assms(5) lb(2)])
  with wf obtain z where z: "gauss n (zip A b') = Some z"
    using gauss_complete by blast
  have lz: "length z = n" by (rule gauss_length [OF z])
  have sol: "\<forall>e\<in>set (zip A b'). vdot (fst e) z = snd e"
    using gauss_sound [OF z wf] lA lb by simp
  have row: "vdot (A ! i) z = w ! i * the (x ! i)" if "i < n" for i
  proof -
    have "(A ! i, b' ! i) \<in> set (zip A b')" using that lA lb by (auto simp: set_zip)
    then have "vdot (A ! i) z = b' ! i" using sol by force
    then show ?thesis using bi that lb by (simp add: b'_def)
  qed
  have ws: "whittaker_smooth x w lam = Inr (map Some z)"
    using assms(1,2) nonan z lb
    by (simp add: whittaker_smooth_def spsolve_def A_def [symmetric] b_def [symmetric] b'_def [symmetric])
  with lz row show ?thesis unfolding A_def by blast
qed

section \<open>What the smoother returns\<close>

text \<open>
  C3 as stated fails. For two observations of value 1 two days apart the sequence passed to
  the smoother is \<open>[1, 1, 1]\<close> (the missing day provisionally filled with the mean) with
  weights \<open>[1, 0, 1]\<close>; the fitted value at the observed position 0 is \<open>3/503\<close>, far from
  the observed 1.
\<close>

theorem smoother_not_exact_counterexample:
  "whittaker_smooth [Some 1, Some 1, Some 1] [1, 0, 1] 100
     = Inr [Some (3 / 503), Some (4 / 503), Some (3 / 503)]
   \<and> [1, 0, 1 :: real] ! 0 = 1
   \<and> \<not> \<bar>3 / 503 - 1\<bar> \<le> (1 / 1000000 :: real)"
  by (simp add: whittaker_smooth_def spsolve_def smoother_matrix_def diags_def diags_main_def
      mat_add_def mat_scale_def matmul_def transpose_m_def eliminate_def
      upt_rec [of _ "numeral _"] numeral_3_eq_3)

text \<open>
  C3, amended. For weights that are not negative, a sequence without NaN and a positive
  \<open>lambda\<close> the smoothing step returns the solution \<open>z\<close> of the penalised least-squares
  system: at every position \<open>w\<^sub>i (z\<^sub>i - x\<^sub>i) + lambda (z\<^sub>i\<^sub>-\<^sub>2 - 4 z\<^sub>i\<^sub>-\<^sub>1 + 6 z\<^sub>i - 4 z\<^sub>i\<^sub>+\<^sub>1 + z\<^sub>i\<^sub>+\<^sub>2) = 0\<close>,
  with \<open>z\<close> read as zero outside the sequence. At an observed position the fitted value
  therefore differs from the observed one by \<open>lambda\<close> times that fourth difference; it is
  \<open>fill_gaps\<close> that keeps the observed values, by writing fitted values to null cells only.
\<close>

theorem smoother_normal_equations:
  assumes "length x = n" "length w = n" "list_all (\<lambda>v. v \<noteq> None) x" "list_all (\<lambda>v. 0 \<le> v) w" "0 < lam"
  shows "\<exists>z. whittaker_smooth x w lam = Inr (map Some z) \<and> length z = n \<and>
           (\<forall>i<n. w ! i * (z ! i - the (x ! i))
                   + lam * (pad z (int i - 2) - 4 * pad z (int i - 1) + 6 * pad z (int i)
                            - 4 * pad z (int i + 1) + pad z (int i + 2)) = 0)"
proof -
  from smoother_solves [OF assms] obtain z where
    ws: "whittaker_smooth x w lam = Inr (map Some z)" and lz: "length z = n" and
    row: "\<And>i. i < n \<Longrightarrow> vdot (smoother_matrix n w lam ! i) z = w ! i * the (x ! i)"
    by blast
  have "w ! i * (z ! i - the (x ! i))
                   + lam * (pad z (int i - 2) - 4 * pad z (int i - 1) + 6 * pad z (int i)
                            - 4 * pad z (int i + 1) + pad z (int i + 2)) = 0" if "i < n" for i
  proof -
    have "w ! i * z ! i + lam * (\<Sum>k<n. gram (n + 2) i k * z ! k) = w ! i * the (x ! i)"
      using row [OF that] smoother_matrix_vdot [OF assms(2) that lz, of lam]
      by (simp only:)
    then have "w ! i * z ! i + lam * (pad z (int i - 2) - 4 * pad z (int i - 1) + 6 * pad z (int i)
                            - 4 * pad z (int i + 1) + pad z (int i + 2)) = w ! i * the (x ! i)"
      by (simp only: gram_apply [OF lz that])
    then show ?thesis by (simp only: right_diff_distrib)
  qed
  with ws lz show ?thesis by blast
qed

theorem smoother_normal_equations_witness:
  "length [Some 1, Some 1, Some (1::real)] = 3 \<and> length [1, 0, 1 :: real] = 3
   \<and> list_all (\<lambda>v. v \<noteq> None) [Some 1, Some 1, Some (1::real)]
   \<and> list_all (\<lambda>v. 0 \<le> v) [1, 0, 1 :: real] \<and> (0::real) < 100
   \<and> (\<exists>z. whittaker_smooth [Some 1, Some 1, Some 1] [1, 0, 1] 100 = Inr (map Some z) \<and> length z = 3 \<and>
           (\<forall>i<3. [1, 0, 1] ! i * (z ! i - the ([Some 1, Some 1, Some 1] ! i))
                   + 100 * (pad z (int i - 2) - 4 * pad z (int i - 1) + 6 * pad z (int i)
                            - 4 * pad z (int i + 1) + pad z (int i + 2)) = 0))"
  using smoother_normal_equations [of "[Some 1, Some 1, Some 1]" 3 "[1, 0, 1]" 100]
  by simp

text \<open>
  C6, at its failing input. The docstring of \<^verbatim>\<open>whittaker_smooth\<close> takes \<^verbatim>\<open>x\<close> as
  ``input data with possible NaN values'' and \<^verbatim>\<open>w\<close> as ``0 for missing values''. But the
  right-hand side is the product \<^verbatim>\<open>w*x\<close>, and \<open>0 * NaN\<close> is NaN: a NaN left at a position of
  weight 0 makes \<^verbatim>\<open>spsolve\<close> return NaN at every position. The sequences \<open>[1, NaN, 1]\<close> and
  \<open>[1, 1, 1]\<close> agree at the positions 0 and 2 of weight 1, and with the weights \<open>[1, 0, 1]\<close>
  and \<open>lambda = 100\<close> the fitted values at those positions are NaN for the first and
  \<open>3/503\<close> for the second.
\<close>

theorem nan_placeholder_spreads:
  "whittaker_smooth [Some 1, None, Some 1] [1, 0, 1] 100 = Inr [None, None, None]
   \<and> whittaker_smooth [Some 1, Some 1, Some 1] [1, 0, 1] 100
       = Inr [Some (3 / 503), Some (4 / 503), Some (3 / 503)]
   \<and> [1, 0, 1 :: real] ! 0 = 1 \<and> [1, 0, 1 :: real] ! 2 = 1
   \<and> [Some 1, None, Some (1::real)] ! 0 = [Some 1, Some 1, Some 1] ! 0
   \<and> [Some 1, None, Some (1::real)] ! 2 = [Some 1, Some 1, Some 1] ! 2"
proof (intro conjI)
  show "whittaker_smooth [Some 1, None, Some 1] [1, 0, 1] 100 = Inr [None, None, None]"
    by (simp add: whittaker_smooth_def spsolve_def)
  show "whittaker_smooth [Some 1, Some 1, Some 1] [1, 0, 1] 100
          = Inr [Some (3 / 503), Some (4 / 503), Some (3 / 503)]"
    by (simp add: whittaker_smooth_def spsolve_def smoother_matrix_def diags_def diags_main_def
        mat_add_def mat_scale_def matmul_def transpose_m_def eliminate_def
        upt_rec [of _ "numeral _"] numeral_3_eq_3)
qed simp_all

text \<open>
  Placeholders that are numbers do not matter: two sequences without NaN that agree wherever
  the weight is 1, smoothed with the same 0/1 weights and the same \<open>lambda\<close>, give the same
  output at every position, since the smoother reads its input only through the products
  \<open>w\<^sub>i x\<^sub>i\<close>. This is the case of every call that \<open>fill_gaps\<close> makes with a column that has
  a value.
\<close>

lemma finite_placeholders_irrelevant:
  assumes "length x = length w" "length x' = length w"
    and "list_all (\<lambda>v. v \<noteq> None) x" "list_all (\<lambda>v. v \<noteq> None) x'"
    and "list_all (\<lambda>v. v = 0 \<or> v = 1) w"
    and "\<forall>i<length w. w ! i = 1 \<longrightarrow> x ! i = x' ! i"
  shows "whittaker_smooth x w lam = whittaker_smooth x' w lam"
proof -
  have "map2 (\<lambda>wi xi. map_option ((*) wi) xi) w x = map2 (\<lambda>wi xi. map_option ((*) wi) xi) w x'"
  proof (rule nth_equalityI)
    show "length (map2 (\<lambda>wi xi. map_option ((*) wi) xi) w x)
          = length (map2 (\<lambda>wi xi. map_option ((*) wi) xi) w x')"
      using assms by simp
  next
    fix i assume "i < length (map2 (\<lambda>wi xi. map_option ((*) wi) xi) w x)"
    then have i: "i < length w" using assms by simp
    have "x ! i \<noteq> None" "x' ! i \<noteq> None"
      using assms(1-4) i by (simp_all add: list_all_length)
    then obtain a a' where a: "x ! i = Some a" "x' ! i = Some a'"
      by blast
    have "w ! i = 0 \<or> w ! i = 1" using assms(5) i by (simp add: list_all_length)
    then show "map2 (\<lambda>wi xi. map_option ((*) wi) xi) w x ! i
               = map2 (\<lambda>wi xi. map_option ((*) wi) xi) w x' ! i"
      using assms(1,2,6) i a by auto
  qed
  then show ?thesis using assms(1,2) by (simp add: whittaker_smooth_def)
qed

section \<open>The shape of the filled frame\<close>

declare get_col.simps [simp del] set_col.simps [simp del] cell_isnull.simps [simp del]
  interpolate_columns.simps [simp del]

lemma interpolate_keeps:
  assumes "interpolate f lm ys = Inr vs"
  shows "length vs = length ys" and "\<And>i. i < length ys \<Longrightarrow> ys ! i \<noteq> None \<Longrightarrow> vs ! i = ys ! i"
proof -
  have "length vs = length ys \<and> (\<forall>i<length ys. ys ! i \<noteq> None \<longrightarrow> vs ! i = ys ! i)"
    using assms by (auto simp: interpolate_def Let_def split: if_splits)
  then show "length vs = length ys" and "\<And>i. i < length ys \<Longrightarrow> ys ! i \<noteq> None \<Longrightarrow> vs ! i = ys ! i"
    by auto
qed

lemma untouched_refl: "untouched r r"
  by (simp add: untouched_def)

lemma untouched_trans: "untouched a b \<Longrightarrow> untouched b c \<Longrightarrow> untouched a c"
  by (auto simp: untouched_def)

lemma untouched_set_col:
  "get_col c r \<noteq> None \<longrightarrow> v = get_col c r \<Longrightarrow> untouched r (set_col c v r)"
  by (auto simp: untouched_def set_col.simps get_col.simps)

lemma list_all2_untouched_trans:
  "list_all2 untouched xs ys \<Longrightarrow> list_all2 untouched ys zs \<Longrightarrow> list_all2 untouched xs zs"
  by (rule list_all2_trans [of untouched untouched untouched]) (auto intro: untouched_trans)

lemma interpolate_columns_untouched:
  "interpolate_columns f lm cols cs rs = Inr rs' \<Longrightarrow> list_all2 untouched rs rs'"
proof (induction cs arbitrary: rs)
  case Nil
  then show ?case by (simp add: list_all2_conv_all_nth untouched_refl interpolate_columns.simps)
next
  case (Cons c cs)
  show ?case
  proof (cases "c \<in> set cols")
    case False
    with Cons show ?thesis by (simp add: interpolate_columns.simps)
  next
    case True
    with Cons.prems obtain vs where
      vs: "interpolate f lm (map (get_col c) rs) = Inr vs" and
      rest: "interpolate_columns f lm cols cs (map2 (set_col c) vs rs) = Inr rs'"
      by (auto simp: interpolate_columns.simps split: sum.splits)
    have l: "length vs = length rs" using interpolate_keeps(1) [OF vs] by simp
    have "list_all2 untouched rs (map2 (set_col c) vs rs)"
      unfolding list_all2_conv_all_nth
    proof (intro conjI allI impI)
      show "length rs = length (map2 (set_col c) vs rs)" using l by simp
    next
      fix i assume i: "i < length rs"
      have "get_col c (rs ! i) \<noteq> None \<longrightarrow> vs ! i = get_col c (rs ! i)"
        using interpolate_keeps(2) [OF vs, of i] i by simp
      then show "untouched (rs ! i) (map2 (set_col c) vs rs ! i)"
        using i l by (simp add: untouched_set_col)
    qed
    then show ?thesis
      using Cons.IH [OF rest] list_all2_untouched_trans by blast
  qed
qed

lemma length_fill_mean [simp]: "length (fill_mean sp sm means) = length means"
  by (simp add: fill_mean_def Let_def)

lemma fill_mean_keeps:
  "i < length means \<Longrightarrow> means ! i \<noteq> None \<Longrightarrow> fill_mean sp sm means ! i = means ! i"
  by (auto simp: fill_mean_def Let_def)

lemma zip_nth_conv:
  "length xs = length ys \<Longrightarrow> zip xs ys = map (\<lambda>i. (xs ! i, ys ! i)) [0..<length ys]"
  by (rule nth_equalityI) simp_all

lemma keep_conv:
  assumes "length sizes = length rs"
  shows "keep g sizes rs = map (\<lambda>i. rs ! i) (filter (\<lambda>i. int (sizes ! i) \<le> g) [0..<length rs])"
  by (simp add: keep_def zip_nth_conv [OF assms] filter_map comp_def)

lemma length_cumsum_from [simp]: "length (cumsum_from a bs) = length bs"
  by (induction bs arbitrary: a) simp_all

lemma length_gap_sizes [simp]: "length (gap_sizes G) = length G"
  by (simp add: gap_sizes_def transform_size_def cumsum_def ne_def shift_def Let_def)

lemma gap_sizes_observed: "i < length G \<Longrightarrow> \<not> G ! i \<Longrightarrow> gap_sizes G ! i = 0"
  by (simp add: gap_sizes_def transform_size_def cumsum_def ne_def shift_def Let_def)

lemma fill_gaps_complete:
  assumes "rows df \<noteq> []" "\<not> list_ex (\<lambda>g. g) (isnull (calendar (rows (convert_dates df))))"
  shows "snd (fill_gaps sp ip df g)
         = Inr \<lparr>columns = columns df, rows = calendar (rows (convert_dates df))\<rparr>"
  using assms by (simp add: fill_gaps_def empty_df_def Let_def)

lemma fill_gaps_unfold:
  assumes "rows df \<noteq> []" "list_ex (\<lambda>g. g) (isnull M)" "M = calendar (rows (convert_dates df))"
    "means = map MCARI_mean M"
  shows "snd (fill_gaps sp ip df g) =
     (case whittaker_smooth (fillna (col_mean means) means) (weights (isnull M) g) 100 of
        Inl e \<Rightarrow> Inl e
      | Inr sm \<Rightarrow>
         (case interpolate_columns ip g (columns df) [''MCARI_min'', ''MCARI_max'', ''MCARI_stdDev'']
                 (map2 (\<lambda>v r. r\<lparr>MCARI_mean := v\<rparr>) (fill_mean sp sm means) M) of
            Inl e \<Rightarrow> Inl e
          | Inr rs \<Rightarrow> Inr \<lparr>columns = add_column ''is_interpolated'' (columns df),
                           rows = keep g (gap_sizes (isnull M))
                                    (map2 (\<lambda>g r. r\<lparr>is_interpolated := Some g\<rparr>) (isnull M) rs)\<rparr>))"
  using assms(1,2) unfolding assms(3,4)
  by (simp add: fill_gaps_def empty_df_def Let_def split: sum.splits)

lemma fill_gaps_cases:
  assumes "snd (fill_gaps sp ip df g) = Inr out"
  obtains
    (empty) "rows df = []" "out = df"
  | (complete) "rows df \<noteq> []" "\<not> list_ex (\<lambda>g. g) (isnull (calendar (rows (convert_dates df))))"
      "rows out = calendar (rows (convert_dates df))"
  | (filled) F where "rows df \<noteq> []" "list_ex (\<lambda>g. g) (isnull (calendar (rows (convert_dates df))))"
      "length F = length (calendar (rows (convert_dates df)))"
      "rows out = keep g (gap_sizes (isnull (calendar (rows (convert_dates df))))) F"
      "\<And>i. i < length F \<Longrightarrow>
          filled_from (calendar (rows (convert_dates df)) ! i)
                      (isnull (calendar (rows (convert_dates df))) ! i) (F ! i)"
      "\<And>i. i < length F \<Longrightarrow> MCARI_mean (calendar (rows (convert_dates df)) ! i) = None \<Longrightarrow>
          \<exists>sm. whittaker_smooth
                  (fillna (col_mean (map MCARI_mean (calendar (rows (convert_dates df)))))
                          (map MCARI_mean (calendar (rows (convert_dates df)))))
                  (weights (isnull (calendar (rows (convert_dates df)))) g) 100 = Inr sm
               \<and> MCARI_mean (F ! i)
                   = fill_mean sp sm (map MCARI_mean (calendar (rows (convert_dates df)))) ! i"
proof (cases "rows df = []")
  case True
  with assms have "out = df" by (simp add: fill_gaps_def empty_df_def)
  with True show ?thesis by (rule empty)
next
  case ne: False
  define M where "M = calendar (rows (convert_dates df))"
  show ?thesis
  proof (cases "list_ex (\<lambda>g. g) (isnull M)")
    case False
    with assms ne have "rows out = M"
      using fill_gaps_complete [of df sp ip g] by (simp add: M_def)
    with ne False show ?thesis unfolding M_def by (rule complete)
  next
    case True
    define means where "means = map MCARI_mean M"
    note unf = fill_gaps_unfold [OF ne True M_def means_def, of sp ip g]
    obtain sm where
      sm: "whittaker_smooth (fillna (col_mean means) means) (weights (isnull M) g) 100 = Inr sm"
      using assms unf
      by (cases "whittaker_smooth (fillna (col_mean means) means) (weights (isnull M) g) 100") simp_all
    obtain rs where
      rs: "interpolate_columns ip g (columns df) [''MCARI_min'', ''MCARI_max'', ''MCARI_stdDev'']
             (map2 (\<lambda>v r. r\<lparr>MCARI_mean := v\<rparr>) (fill_mean sp sm means) M) = Inr rs"
      using assms unf sm
      by (cases "interpolate_columns ip g (columns df) [''MCARI_min'', ''MCARI_max'', ''MCARI_stdDev'']
             (map2 (\<lambda>v r. r\<lparr>MCARI_mean := v\<rparr>) (fill_mean sp sm means) M)") simp_all
    have out: "rows out = keep g (gap_sizes (isnull M))
                         (map2 (\<lambda>g r. r\<lparr>is_interpolated := Some g\<rparr>) (isnull M) rs)"
      using assms unf sm rs by auto
    define F where "F = map2 (\<lambda>g r. r\<lparr>is_interpolated := Some g\<rparr>) (isnull M) rs"
    have u: "list_all2 untouched (map2 (\<lambda>v r. r\<lparr>MCARI_mean := v\<rparr>) (fill_mean sp sm means) M) rs"
      by (rule interpolate_columns_untouched [OF rs])
    have lrs: "length rs = length M"
      using list_all2_lengthD [OF u] by (simp add: means_def)
    have lF: "length F = length M" by (simp add: F_def lrs isnull_def)
    have ff: "filled_from (M ! i) (isnull M ! i) (F ! i)" if "i < length F" for i
    proof -
      have i: "i < length M" using that lF by simp
      have "untouched ((M ! i)\<lparr>MCARI_mean := fill_mean sp sm means ! i\<rparr>) (rs ! i)"
        using list_all2_nthD2 [OF u, of i] i lrs by (simp add: means_def)
      moreover have "MCARI_mean (M ! i) \<noteq> None \<longrightarrow> fill_mean sp sm means ! i = MCARI_mean (M ! i)"
        using fill_mean_keeps [of i means sp sm] i by (simp add: means_def)
      ultimately show ?thesis
        using i lrs by (simp add: F_def isnull_def filled_from_def untouched_def)
    qed
    have fm: "\<exists>sm. whittaker_smooth (fillna (col_mean (map MCARI_mean M)) (map MCARI_mean M))
                  (weights (isnull M) g) 100 = Inr sm
               \<and> MCARI_mean (F ! i) = fill_mean sp sm (map MCARI_mean M) ! i" if "i < length F" for i
    proof -
      have i: "i < length M" using that lF by simp
      have "untouched ((M ! i)\<lparr>MCARI_mean := fill_mean sp sm means ! i\<rparr>) (rs ! i)"
        using list_all2_nthD2 [OF u, of i] i lrs by (simp add: means_def)
      then have "MCARI_mean (F ! i) = fill_mean sp sm means ! i"
        using i lrs by (simp add: F_def isnull_def untouched_def)
      with sm show ?thesis unfolding means_def by blast
    qed
    show ?thesis
      using filled [of F, OF ne True [unfolded M_def] lF [unfolded M_def]
                        out [folded F_def, unfolded M_def]]
            ff fm unfolding M_def by blast
  qed
qed

section \<open>The calendar\<close>

lemma rows_convert_dates:
  "rows (convert_dates df) = map (\<lambda>r. r\<lparr>date := Timestamp (day_of (date r))\<rparr>) (rows df)"
  by (simp add: convert_dates_def to_datetime_def)

lemma days_convert_dates: "days (rows (convert_dates df)) = days (rows df)"
  by (simp add: rows_convert_dates days_def comp_def)

lemma timestamps_convert_dates:
  "r \<in> set (rows (convert_dates df)) \<Longrightarrow> date r = Timestamp (day_of (date r))"
  by (auto simp: rows_convert_dates)

lemma set_days_sort_values: "set (days (sort_values rs)) = set (days rs)"
  by (simp add: days_def sort_values_def)

lemma calendar_alt:
  "calendar rs = merge_left (date_range (Min (set (days rs))) (Max (set (days rs)))) (sort_values rs)"
  by (simp add: calendar_def Let_def set_days_sort_values)

lemma set_date_range: "set (date_range lo hi) = Timestamp ` {lo..hi}"
  by (simp add: date_range_def)

lemma merge_left_in:
  assumes "q \<in> set (merge_left T xs)"
  shows "date q \<in> set T"
    and "q \<in> set xs \<or> (q = null_row (date q) \<and> (\<forall>r\<in>set xs. date r \<noteq> date q))"
proof -
  from assms obtain d where d: "d \<in> set T"
    and q: "q \<in> set (case filter (\<lambda>r. date r = d) xs of [] \<Rightarrow> [null_row d] | ms \<Rightarrow> ms)"
    by (auto simp: merge_left_def)
  have "date q = d \<and> (q \<in> set xs \<or> (q = null_row (date q) \<and> (\<forall>r\<in>set xs. date r \<noteq> date q)))"
  proof (cases "filter (\<lambda>r. date r = d) xs")
    case Nil
    then have "\<forall>r\<in>set xs. date r \<noteq> d" by (simp add: filter_empty_conv)
    with q Nil show ?thesis by (simp add: null_row_def)
  next
    case (Cons a ms)
    with q have "q \<in> set (filter (\<lambda>r. date r = d) xs)" by simp
    then show ?thesis by simp
  qed
  with d show "date q \<in> set T"
    and "q \<in> set xs \<or> (q = null_row (date q) \<and> (\<forall>r\<in>set xs. date r \<noteq> date q))"
    by auto
qed

lemma merge_left_has:
  assumes "r \<in> set xs" "date r \<in> set T"
  shows "r \<in> set (merge_left T xs)"
proof -
  have "r \<in> set (filter (\<lambda>x. date x = date r) xs)" using assms(1) by simp
  then have "r \<in> set (case filter (\<lambda>x. date x = date r) xs of [] \<Rightarrow> [null_row (date r)] | ms \<Rightarrow> ms)"
    by (cases "filter (\<lambda>x. date x = date r) xs") auto
  with assms(2) show ?thesis by (auto simp: merge_left_def)
qed

lemma day_in_range:
  assumes "r \<in> set rs"
  shows "Min (set (days rs)) \<le> day_of (date r)" "day_of (date r) \<le> Max (set (days rs))"
  using assms by (simp_all add: days_def)

lemma calendar_has:
  assumes "r \<in> set rs" "date r = Timestamp (day_of (date r))"
  shows "r \<in> set (calendar rs)"
proof -
  have "date r \<in> set (date_range (Min (set (days rs))) (Max (set (days rs))))"
    using day_in_range [OF assms(1)] assms(2) by (auto simp: set_date_range)
  then show ?thesis
    using assms(1) by (simp add: calendar_alt merge_left_has sort_values_def)
qed

lemma calendar_in:
  assumes "q \<in> set (calendar rs)"
  shows "q \<in> set rs \<or> (q = null_row (date q) \<and> (\<forall>r\<in>set rs. date r \<noteq> date q))"
    and "\<exists>d. date q = Timestamp d \<and> Min (set (days rs)) \<le> d \<and> d \<le> Max (set (days rs))"
  using merge_left_in [OF assms [unfolded calendar_alt]]
  by (auto simp: sort_values_def set_date_range)

lemma last_concat_nonempty:
  "xss \<noteq> [] \<Longrightarrow> last xss \<noteq> [] \<Longrightarrow> last (concat xss) = last (last xss)"
  by (induction xss) (auto simp: last_append)

lemma calendar_ends:
  assumes "rs \<noteq> []" "\<forall>r\<in>set rs. date r = Timestamp (day_of (date r))"
  shows "calendar rs \<noteq> []" "hd (calendar rs) \<in> set rs" "last (calendar rs) \<in> set rs"
proof -
  define lo where "lo = Min (set (days rs))"
  define hi where "hi = Max (set (days rs))"
  define h where "h = (\<lambda>d. case filter (\<lambda>r. date r = d) (sort_values rs) of
                               [] \<Rightarrow> [null_row d] | ms \<Rightarrow> ms)"
  have ne: "set (days rs) \<noteq> {}" using assms(1) by (simp add: days_def)
  have "lo \<in> set (days rs)" "hi \<in> set (days rs)"
    unfolding lo_def hi_def using ne by (auto intro: Min_in Max_in)
  then obtain a b where a: "a \<in> set rs" "day_of (date a) = lo" and b: "b \<in> set rs" "day_of (date b) = hi"
    by (auto simp: days_def)
  have le: "lo \<le> hi" unfolding lo_def hi_def using ne by simp
  have cal: "calendar rs = concat (map h (date_range lo hi))"
    by (simp add: calendar_alt merge_left_def h_def lo_def hi_def)
  have T: "date_range lo hi \<noteq> []" "hd (date_range lo hi) = Timestamp lo"
    using le by (simp_all add: date_range_def hd_map upto_rec1 [of lo hi])
  have T3: "last (date_range lo hi) = Timestamp hi"
    using le by (simp add: date_range_def upto_rec2 [of lo hi])
  have hne: "h d \<noteq> []" for d by (simp add: h_def split: list.splits)
  have hin: "set (h (Timestamp (day_of (date x)))) \<subseteq> set rs" if "x \<in> set rs" for x
  proof -
    have "x \<in> set (filter (\<lambda>r. date r = Timestamp (day_of (date x))) (sort_values rs))"
      using that assms(2) by (simp add: sort_values_def)
    then show ?thesis
      by (cases "filter (\<lambda>r. date r = Timestamp (day_of (date x))) (sort_values rs)")
         (auto simp: h_def sort_values_def dest!: arg_cong [where f = set])
  qed
  show "calendar rs \<noteq> []" using T(1) hne by (auto simp: cal)
  have "hd (calendar rs) = hd (h (Timestamp lo))"
    using T hne by (simp add: cal hd_concat hd_map)
  then show "hd (calendar rs) \<in> set rs"
    using hin [OF a(1)] hne [of "Timestamp lo"] a(2) by (metis hd_in_set subsetD)
  have "last (calendar rs) = last (h (Timestamp hi))"
    using T T3 hne by (simp add: cal last_concat_nonempty last_map)
  then show "last (calendar rs) \<in> set rs"
    using hin [OF b(1)] hne [of "Timestamp hi"] b(2) by (metis last_in_set subsetD)
qed

lemma filter_distinct_key:
  "distinct (map f xs) \<Longrightarrow> x \<in> set xs \<Longrightarrow> filter (\<lambda>r. f r = f x) xs = [x]"
proof (induction xs)
  case Nil then show ?case by simp
next
  case (Cons a xs)
  show ?case
  proof (cases "a = x")
    case True
    have "f x \<notin> f ` set xs" using Cons.prems(1) True by simp
    then have "\<forall>r\<in>set xs. f r \<noteq> f x" by (metis imageI)
    then have "filter (\<lambda>r. f r = f x) xs = []"
      by (simp add: filter_empty_conv)
    with True show ?thesis by simp
  next
    case False
    then have "x \<in> set xs" using Cons.prems by simp
    moreover have "f a \<noteq> f x" using Cons.prems(1) \<open>x \<in> set xs\<close> by auto
    ultimately show ?thesis using Cons by simp
  qed
qed

lemma merge_left_distinct:
  assumes "distinct (map date xs)"
  shows "map date (merge_left T xs) = T"
    and "length (merge_left T xs) = length T"
    and "\<And>i. i < length T \<Longrightarrow>
           merge_left T xs ! i \<in> set xs \<or>
           (merge_left T xs ! i = null_row (T ! i) \<and> (\<forall>r\<in>set xs. date r \<noteq> T ! i))"
proof -
  define h where "h = (\<lambda>d. case filter (\<lambda>r. date r = d) xs of [] \<Rightarrow> null_row d | r # _ \<Rightarrow> r)"
  have single: "(case filter (\<lambda>r. date r = d) xs of [] \<Rightarrow> [null_row d] | ms \<Rightarrow> ms) = [h d]" for d
  proof (cases "filter (\<lambda>r. date r = d) xs")
    case Nil then show ?thesis by (simp add: h_def)
  next
    case (Cons a ms)
    then have "a \<in> set (filter (\<lambda>r. date r = d) xs)" by simp
    then have a: "a \<in> set xs" "date a = d" by auto
    from filter_distinct_key [OF assms a(1)] a(2) Cons show ?thesis by (simp add: h_def)
  qed
  have m: "merge_left T xs = map h T"
    by (simp add: merge_left_def single)
  have hd: "date (h d) = d" for d
  proof (cases "filter (\<lambda>r. date r = d) xs")
    case Nil then show ?thesis by (simp add: h_def null_row_def)
  next
    case (Cons a ms)
    then have "a \<in> set (filter (\<lambda>r. date r = d) xs)" by simp
    then have "date a = d" by simp
    with Cons show ?thesis by (simp add: h_def)
  qed
  show "map date (merge_left T xs) = T" by (simp add: m hd comp_def)
  show "length (merge_left T xs) = length T" by (simp add: m)
  show "merge_left T xs ! i \<in> set xs \<or>
           (merge_left T xs ! i = null_row (T ! i) \<and> (\<forall>r\<in>set xs. date r \<noteq> T ! i))"
    if "i < length T" for i
  proof (cases "filter (\<lambda>r. date r = T ! i) xs")
    case Nil
    then have "\<forall>r\<in>set xs. date r \<noteq> T ! i" by (simp add: filter_empty_conv)
    with Nil that show ?thesis by (simp add: m h_def)
  next
    case (Cons a ms)
    then have "a \<in> set (filter (\<lambda>r. date r = T ! i) xs)" by simp
    then have "a \<in> set xs" by simp
    with Cons that show ?thesis by (simp add: m h_def)
  qed
qed

section \<open>Rows kept and rows dropped\<close>

lemma keep_has:
  assumes "length sizes = length F" "i < length F" "int (sizes ! i) \<le> g"
  shows "F ! i \<in> set (keep g sizes F)"
  using assms by (auto simp: keep_conv [OF assms(1)])

lemma keep_in:
  assumes "length sizes = length F" "q \<in> set (keep g sizes F)"
  obtains i where "i < length F" "q = F ! i" "int (sizes ! i) \<le> g"
  using assms by (auto simp: keep_conv [OF assms(1)])

lemma calendar_row_of:
  assumes "r \<in> set (rows df)"
  shows "r\<lparr>date := Timestamp (day_of (date r))\<rparr> \<in> set (calendar (rows (convert_dates df)))"
proof -
  have "r\<lparr>date := Timestamp (day_of (date r))\<rparr> \<in> set (rows (convert_dates df))"
    using assms by (auto simp: rows_convert_dates)
  then show ?thesis by (rule calendar_has) simp
qed

lemma observed_row_kept:
  assumes "snd (fill_gaps sp ip df g) = Inr out" "0 \<le> g"
  shows "\<forall>r\<in>set (rows df). MCARI_mean r \<noteq> None \<longrightarrow>
           (\<exists>q\<in>set (rows out). day_of (date q) = day_of (date r) \<and> MCARI_mean q = MCARI_mean r)"
proof (intro ballI impI)
  fix r assume r: "r \<in> set (rows df)" "MCARI_mean r \<noteq> None"
  define M where "M = calendar (rows (convert_dates df))"
  define c where "c = r\<lparr>date := Timestamp (day_of (date r))\<rparr>"
  have cM: "c \<in> set M" unfolding c_def M_def by (rule calendar_row_of [OF r(1)])
  from assms(1) show "\<exists>q\<in>set (rows out). day_of (date q) = day_of (date r) \<and> MCARI_mean q = MCARI_mean r"
  proof (cases rule: fill_gaps_cases)
    case empty
    with r show ?thesis by simp
  next
    case complete
    then have "c \<in> set (rows out)" using cM by (simp add: M_def)
    then show ?thesis by (rule bexI [rotated]) (simp add: c_def)
  next
    case (filled F)
    from cM obtain i where i: "i < length M" "M ! i = c" by (auto simp: in_set_conv_nth)
    have iF: "i < length F" using i filled(3) by (simp add: M_def)
    have "\<not> isnull M ! i" using i r(2) by (simp add: isnull_def c_def)
    then have "gap_sizes (isnull M) ! i = 0"
      using i by (simp add: gap_sizes_observed isnull_def)
    then have "F ! i \<in> set (rows out)"
      using filled(3,4) iF assms(2) by (simp add: M_def keep_has isnull_def)
    moreover have "filled_from c (isnull M ! i) (F ! i)"
      using filled(5) [OF iF] i by (simp add: M_def)
    ultimately show ?thesis
      using r(2) by (intro bexI [of _ "F ! i"]) (simp_all add: filled_from_def c_def)
  qed
qed

lemma keep_hd:
  assumes "length sizes = length F" "F \<noteq> []" "int (sizes ! 0) \<le> g"
  shows "keep g sizes F \<noteq> []" "hd (keep g sizes F) = F ! 0"
proof -
  have "[0..<length F] = 0 # [1..<length F]" using assms(2) by (simp add: upt_conv_Cons)
  then show "keep g sizes F \<noteq> []" "hd (keep g sizes F) = F ! 0"
    using assms(3) by (simp_all add: keep_conv [OF assms(1)])
qed

lemma keep_last:
  assumes "length sizes = length F" "F \<noteq> []" "int (sizes ! (length F - 1)) \<le> g"
  shows "last (keep g sizes F) = F ! (length F - 1)"
proof -
  obtain n where n: "length F = Suc n" using assms(2) by (cases F) auto
  show ?thesis using assms(3) by (simp add: keep_conv [OF assms(1)] n)
qed

lemma ends_observed:
  assumes "snd (fill_gaps sp ip df g) = Inr out" "0 \<le> g" "rows df \<noteq> []"
    "list_all real_observation (rows df)"
  shows "rows out \<noteq> []"
    and "is_interpolated (hd (rows out)) \<noteq> Some True"
    and "\<exists>r\<in>set (rows df). day_of (date (hd (rows out))) = day_of (date r)
                              \<and> MCARI_mean (hd (rows out)) = MCARI_mean r"
    and "is_interpolated (last (rows out)) \<noteq> Some True"
    and "\<exists>r\<in>set (rows df). day_of (date (last (rows out))) = day_of (date r)
                              \<and> MCARI_mean (last (rows out)) = MCARI_mean r"
proof -
  define X where "X = rows (convert_dates df)"
  define M where "M = calendar X"
  have Xne: "X \<noteq> []" using assms(3) by (simp add: X_def rows_convert_dates)
  have ts: "\<forall>r\<in>set X. date r = Timestamp (day_of (date r))"
    unfolding X_def using timestamps_convert_dates by blast
  note ends = calendar_ends [OF Xne ts, folded M_def]
  have obs: "\<exists>r\<in>set (rows df). day_of (date x) = day_of (date r) \<and> MCARI_mean x = MCARI_mean r
               \<and> MCARI_mean x \<noteq> None \<and> is_interpolated x = None" if "x \<in> set X" for x
  proof -
    from that obtain r where r: "r \<in> set (rows df)" "x = r\<lparr>date := Timestamp (day_of (date r))\<rparr>"
      by (auto simp: X_def rows_convert_dates)
    then have "real_observation r" using assms(4) by (simp add: list_all_iff)
    with r show ?thesis by (auto simp: real_observation_def)
  qed
  from assms(1) have "rows out \<noteq> []
    \<and> is_interpolated (hd (rows out)) \<noteq> Some True
    \<and> (\<exists>r\<in>set (rows df). day_of (date (hd (rows out))) = day_of (date r)
                              \<and> MCARI_mean (hd (rows out)) = MCARI_mean r)
    \<and> is_interpolated (last (rows out)) \<noteq> Some True
    \<and> (\<exists>r\<in>set (rows df). day_of (date (last (rows out))) = day_of (date r)
                              \<and> MCARI_mean (last (rows out)) = MCARI_mean r)"
  proof (cases rule: fill_gaps_cases)
    case empty
    with assms(3) show ?thesis by simp
  next
    case complete
    then have "rows out = M" by (simp add: M_def X_def)
    moreover from obs [OF ends(2)] obtain r0 where "r0 \<in> set (rows df)"
      "day_of (date (hd M)) = day_of (date r0)" "MCARI_mean (hd M) = MCARI_mean r0"
      "is_interpolated (hd M) = None" by blast
    moreover from obs [OF ends(3)] obtain rn where "rn \<in> set (rows df)"
      "day_of (date (last M)) = day_of (date rn)" "MCARI_mean (last M) = MCARI_mean rn"
      "is_interpolated (last M) = None" by blast
    ultimately show ?thesis using ends(1) by (simp only:) (simp, blast)
  next
    case (filled F)
    have lF: "length F = length M" using filled(3) by (simp add: M_def X_def)
    have Fne: "F \<noteq> []" using lF ends(1) by auto
    have ls: "length (gap_sizes (isnull M)) = length F" by (simp add: lF isnull_def)
    have out: "rows out = keep g (gap_sizes (isnull M)) F" using filled(4) by (simp add: M_def X_def)
    have ff: "filled_from (M ! i) (isnull M ! i) (F ! i)" if "i < length F" for i
      using filled(5) [OF that] by (simp add: M_def X_def)
    have first: "M ! 0 \<in> set X" using ends by (simp add: hd_conv_nth)
    have final: "M ! (length F - 1) \<in> set X" using ends lF by (simp add: last_conv_nth)
    have kept: "\<not> isnull M ! i \<and> int (gap_sizes (isnull M) ! i) \<le> g"
      if "i < length F" "M ! i \<in> set X" for i
    proof -
      have "\<not> isnull M ! i" using obs [OF that(2)] that(1) lF by (auto simp: isnull_def)
      then show ?thesis using gap_sizes_observed [of i "isnull M"] that(1) lF assms(2)
        by (simp add: isnull_def)
    qed
    have k0: "\<not> isnull M ! 0 \<and> int (gap_sizes (isnull M) ! 0) \<le> g"
      using kept [of 0] first Fne by simp
    have kn: "\<not> isnull M ! (length F - 1) \<and> int (gap_sizes (isnull M) ! (length F - 1)) \<le> g"
      using kept [of "length F - 1"] final Fne by simp
    have h: "rows out \<noteq> []" "hd (rows out) = F ! 0"
      using keep_hd [OF ls Fne, of g] k0 by (simp_all add: out)
    have l: "last (rows out) = F ! (length F - 1)"
      using keep_last [OF ls Fne, of g] kn by (simp add: out)
    have f0: "filled_from (M ! 0) False (F ! 0)" using ff [of 0] Fne k0 by simp
    have fn: "filled_from (M ! (length F - 1)) False (F ! (length F - 1))"
      using ff [of "length F - 1"] Fne kn by simp
    from obs [OF first] obtain r0 where r0: "r0 \<in> set (rows df)"
      "day_of (date (M ! 0)) = day_of (date r0)" "MCARI_mean (M ! 0) = MCARI_mean r0"
      "MCARI_mean (M ! 0) \<noteq> None" by blast
    from obs [OF final] obtain rn where rn: "rn \<in> set (rows df)"
      "day_of (date (M ! (length F - 1))) = day_of (date rn)"
      "MCARI_mean (M ! (length F - 1)) = MCARI_mean rn"
      "MCARI_mean (M ! (length F - 1)) \<noteq> None" by blast
    have "day_of (date (F ! 0)) = day_of (date r0) \<and> MCARI_mean (F ! 0) = MCARI_mean r0"
      using f0 r0 by (simp add: filled_from_def)
    moreover have "day_of (date (F ! (length F - 1))) = day_of (date rn)
                   \<and> MCARI_mean (F ! (length F - 1)) = MCARI_mean rn"
      using fn rn by (simp add: filled_from_def)
    moreover have "is_interpolated (F ! 0) = Some False"
      "is_interpolated (F ! (length F - 1)) = Some False"
      using f0 fn by (simp_all add: filled_from_def)
    ultimately show ?thesis
      using h l r0(1) rn(1) by (simp only: option.inject simp_thms) blast
  qed
  then show "rows out \<noteq> []"
    and "is_interpolated (hd (rows out)) \<noteq> Some True"
    and "\<exists>r\<in>set (rows df). day_of (date (hd (rows out))) = day_of (date r)
                              \<and> MCARI_mean (hd (rows out)) = MCARI_mean r"
    and "is_interpolated (last (rows out)) \<noteq> Some True"
    and "\<exists>r\<in>set (rows df). day_of (date (last (rows out))) = day_of (date r)
                              \<and> MCARI_mean (last (rows out)) = MCARI_mean r"
    by simp_all
qed

lemma distinct_dates_sorted:
  assumes "distinct (days (rows df))"
  shows "distinct (map date (sort_values (rows (convert_dates df))))"
proof -
  have "map date (rows (convert_dates df)) = map Timestamp (days (rows df))"
    by (simp add: rows_convert_dates days_def)
  then have "distinct (map date (rows (convert_dates df)))"
    using assms by (simp add: distinct_map inj_on_def)
  then show ?thesis
    by (simp add: distinct_map sort_values_def)
qed

lemma calendar_days:
  assumes "distinct (days (rows df))"
  shows "days (calendar (rows (convert_dates df)))
         = [Min (set (days (rows df)))..Max (set (days (rows df)))]"
proof -
  have "map date (calendar (rows (convert_dates df)))
        = date_range (Min (set (days (rows df)))) (Max (set (days (rows df))))"
    using merge_left_distinct(1) [OF distinct_dates_sorted [OF assms]]
    by (simp add: calendar_alt days_convert_dates)
  then have "map day_of (map date (calendar (rows (convert_dates df))))
        = map day_of (date_range (Min (set (days (rows df)))) (Max (set (days (rows df)))))"
    by simp
  then show ?thesis by (simp add: days_def date_range_def comp_def)
qed

lemma calendar_unique:
  assumes "distinct (days (rows df))" "r \<in> set (rows df)"
    "m \<in> set (calendar (rows (convert_dates df)))" "day_of (date m) = day_of (date r)"
  shows "m = r\<lparr>date := Timestamp (day_of (date r))\<rparr>"
proof -
  define c where "c = r\<lparr>date := Timestamp (day_of (date r))\<rparr>"
  have cX: "c \<in> set (rows (convert_dates df))"
    using assms(2) by (auto simp: rows_convert_dates c_def)
  from calendar_in(2) [OF assms(3)] assms(4) have dm: "date m = date c"
    by (auto simp: c_def)
  with calendar_in(1) [OF assms(3)] cX have "m \<in> set (rows (convert_dates df))"
    by auto
  then obtain r' where r': "r' \<in> set (rows df)" "m = r'\<lparr>date := Timestamp (day_of (date r'))\<rparr>"
    by (auto simp: rows_convert_dates)
  have "inj_on (\<lambda>r. day_of (date r)) (set (rows df))"
    using assms(1) by (simp add: days_def distinct_map)
  moreover have "day_of (date r') = day_of (date r)" using r'(2) assms(4) by simp
  ultimately have "r' = r" using r'(1) assms(2) by (auto dest: inj_onD)
  with r'(2) show ?thesis by simp
qed

lemma observed_row_exact:
  assumes "snd (fill_gaps sp ip df g) = Inr out" "distinct (days (rows df))"
    "r \<in> set (rows df)" "real_observation r"
    "q \<in> set (rows out)" "day_of (date q) = day_of (date r)"
  shows "filled_from r False (q\<lparr>date := date r\<rparr>) \<or> q = r\<lparr>date := Timestamp (day_of (date r))\<rparr>"
proof -
  define c where "c = r\<lparr>date := Timestamp (day_of (date r))\<rparr>"
  define M where "M = calendar (rows (convert_dates df))"
  from assms(1) show ?thesis
  proof (cases rule: fill_gaps_cases)
    case empty
    with assms(3) show ?thesis by simp
  next
    case complete
    then have "q \<in> set M" using assms(5) by (simp add: M_def)
    then show ?thesis
      using calendar_unique [OF assms(2,3) _ assms(6)] by (simp add: M_def)
  next
    case (filled F)
    have ls: "length (gap_sizes (isnull M)) = length F" using filled(3) by (simp add: M_def isnull_def)
    from assms(5) filled(4) obtain i where i: "i < length F" "q = F ! i"
      using keep_in [OF ls] by (metis M_def)
    have ff: "filled_from (M ! i) (isnull M ! i) q" using filled(5) [OF i(1)] i(2) by (simp add: M_def)
    have "M ! i \<in> set M" using i(1) filled(3) by (simp add: M_def)
    moreover have "day_of (date (M ! i)) = day_of (date r)"
      using ff assms(6) by (simp add: filled_from_def)
    ultimately have Mi: "M ! i = c"
      using calendar_unique [OF assms(2,3)] by (simp add: M_def c_def)
    have "\<not> isnull M ! i"
      using Mi i(1) filled(3) assms(4) by (simp add: isnull_def M_def c_def real_observation_def)
    with ff Mi have "filled_from c False q" by simp
    then show ?thesis by (simp add: filled_from_def c_def)
  qed
qed

section \<open>A worked example\<close>

lemma calendar_two_obs:
  "calendar (rows (convert_dates two_obs))
   = [observation (Timestamp 0) 1, null_row (Timestamp 1), observation (Timestamp 2) 1]"
  by (simp add: calendar_def two_obs_def convert_dates_def to_datetime_def observation_def
      null_row_def sort_values_def days_def date_range_def merge_left_def upto_rec1 [of 0 2]
      upto_rec1 [of 1 2] Let_def)

lemma gap_sizes_ex: "gap_sizes [False, True, False] = [0, 1, 0]"
  by (simp add: gap_sizes_def Let_def cumsum_def ne_def shift_def transform_size_def)

lemma columns_two_obs: "columns two_obs = []" "rows two_obs \<noteq> []"
  by (simp_all add: two_obs_def)

lemma smooth_ex:
  "whittaker_smooth [Some 1, Some 1, Some 1] [1, 0, 1] 100
     = Inr [Some (3 / 503), Some (4 / 503), Some (3 / 503)]"
  by (simp add: whittaker_smooth_def spsolve_def smoother_matrix_def diags_def diags_main_def
      mat_add_def mat_scale_def matmul_def transpose_m_def eliminate_def
      upt_rec [of _ "numeral _"] numeral_3_eq_3)

lemma fill_two_obs: "snd (fill_gaps flat_spline flat_interp two_obs 32) = Inr two_obs_filled"
  apply (subst fill_gaps_unfold [OF _ _ refl refl])
    apply (simp add: two_obs_def)
   apply (simp add: calendar_two_obs isnull_def observation_def null_row_def)
  apply (simp add: calendar_two_obs isnull_def gap_sizes_ex weights_def col_mean_def fillna_def
      observation_def null_row_def smooth_ex fill_mean_def valid_positions_def
      interpolate_columns.simps columns_two_obs add_column_def
      keep_def two_obs_filled_def upt_rec [of _ "numeral _"] numeral_3_eq_3)
  done

section \<open>When the call returns and when it raises\<close>

lemma length_weights [simp]: "length (weights G g) = length G"
  by (simp add: weights_def)

lemma whittaker_smooth_returns:
  "length w = length x \<Longrightarrow> \<exists>sm. whittaker_smooth x w lam = Inr sm \<and> length sm = length x"
  by (auto simp: whittaker_smooth_def spsolve_def split: option.splits dest: gauss_length)

lemma interpolate_few_points:
  assumes "1 \<le> g" "valid_positions ys \<noteq> []" "length (valid_positions ys) < 4"
    "length (valid_positions ys) \<noteq> length ys"
  shows "interpolate ip g ys = Inl ValueError"
  using assms by (simp add: interpolate_def Let_def)

lemma fill_gaps_few_points:
  assumes "rows df \<noteq> []" "M = calendar (rows (convert_dates df))" "list_ex (\<lambda>g. g) (isnull M)"
    "''MCARI_min'' \<in> set (columns df)" "1 \<le> g"
    "valid_positions (map MCARI_min M) \<noteq> []" "length (valid_positions (map MCARI_min M)) < 4"
    "length (valid_positions (map MCARI_min M)) \<noteq> length M"
  shows "snd (fill_gaps sp ip df g) = Inl ValueError"
proof -
  define means where "means = map MCARI_mean M"
  obtain sm where sm: "whittaker_smooth (fillna (col_mean means) means) (weights (isnull M) g) 100 = Inr sm"
    using whittaker_smooth_returns [of "weights (isnull M) g" "fillna (col_mean means) means" 100]
    by (auto simp: fillna_def means_def isnull_def)
  have "map (get_col ''MCARI_min'') (map2 (\<lambda>v r. r\<lparr>MCARI_mean := v\<rparr>) (fill_mean sp sm means) M)
        = map MCARI_min M"
    by (rule nth_equalityI) (simp_all add: means_def get_col.simps)
  then have "interpolate ip g (map (get_col ''MCARI_min'')
               (map2 (\<lambda>v r. r\<lparr>MCARI_mean := v\<rparr>) (fill_mean sp sm means) M)) = Inl ValueError"
    using interpolate_few_points [OF assms(5-7)] assms(8) by simp
  then have "interpolate_columns ip g (columns df) [''MCARI_min'', ''MCARI_max'', ''MCARI_stdDev'']
               (map2 (\<lambda>v r. r\<lparr>MCARI_mean := v\<rparr>) (fill_mean sp sm means) M) = Inl ValueError"
    using assms(4) by (simp add: interpolate_columns.simps)
  then show ?thesis
    using fill_gaps_unfold [OF assms(1,3,2) means_def, of sp ip g] sm by simp
qed

lemma fill_gaps_no_limit:
  assumes "rows df \<noteq> []" "M = calendar (rows (convert_dates df))" "list_ex (\<lambda>g. g) (isnull M)"
    "''MCARI_min'' \<in> set (columns df)" "g < 1"
  shows "snd (fill_gaps sp ip df g) = Inl ValueError"
proof -
  define means where "means = map MCARI_mean M"
  obtain sm where sm: "whittaker_smooth (fillna (col_mean means) means) (weights (isnull M) g) 100 = Inr sm"
    using whittaker_smooth_returns [of "weights (isnull M) g" "fillna (col_mean means) means" 100]
    by (auto simp: fillna_def means_def isnull_def)
  have "interpolate ip g ys = Inl ValueError" for ys
    using assms(5) by (simp add: interpolate_def)
  then have "interpolate_columns ip g (columns df) [''MCARI_min'', ''MCARI_max'', ''MCARI_stdDev'']
               (map2 (\<lambda>v r. r\<lparr>MCARI_mean := v\<rparr>) (fill_mean sp sm means) M) = Inl ValueError"
    using assms(4) by (simp add: interpolate_columns.simps)
  then show ?thesis
    using fill_gaps_unfold [OF assms(1,3,2) means_def, of sp ip g] sm by simp
qed

lemma few_points_no_spline:
  "length (valid_positions means) \<le> 3 \<Longrightarrow> fill_mean sp sm means = fill_mean sp' sm means"
  by (simp add: fill_mean_def Let_def)

lemma weights_range: "list_all (\<lambda>v. 0 \<le> v) (weights G g)"
  by (auto simp: weights_def list_all_iff dest!: set_zip_leftD set_zip_rightD in_set_zipE)

lemma fillna_no_nan:
  assumes "\<exists>v\<in>set means. v \<noteq> None"
  shows "list_all (\<lambda>v. v \<noteq> None) (fillna (col_mean means) means)"
proof -
  have "filter (\<lambda>v. v \<noteq> None) means \<noteq> []" using assms by (simp add: filter_empty_conv)
  then have "col_mean means \<noteq> None" by (simp add: col_mean_def Let_def)
  then show ?thesis by (auto simp: fillna_def list_all_iff split: option.splits)
qed

lemma fill_mean_filled:
  assumes "\<exists>v\<in>set means. v \<noteq> None"
    "whittaker_smooth (fillna (col_mean means) means) (weights (map (\<lambda>v. v = None) means) g) 100 = Inr sm"
    "i < length means"
  shows "fill_mean sp sm means ! i \<noteq> None"
proof -
  have "\<exists>z. whittaker_smooth (fillna (col_mean means) means) (weights (map (\<lambda>v. v = None) means) g) 100
               = Inr (map Some z) \<and> length z = length means
               \<and> (\<forall>i<length means. vdot (smoother_matrix (length means)
                      (weights (map (\<lambda>v. v = None) means) g) 100 ! i) z
                    = weights (map (\<lambda>v. v = None) means) g ! i
                        * the (fillna (col_mean means) means ! i))"
    by (rule smoother_solves [OF _ _ fillna_no_nan [OF assms(1)] weights_range])
       (simp_all add: fillna_def)
  then obtain z where "sm = map Some z" "length z = length means" using assms(2) by auto
  then show ?thesis
    using assms(3) by (cases "means ! i") (simp_all add: fill_mean_def Let_def)
qed

lemma fill_gaps_returns:
  assumes "''MCARI_min'' \<notin> set (columns df)" "''MCARI_max'' \<notin> set (columns df)"
    "''MCARI_stdDev'' \<notin> set (columns df)"
  shows "\<exists>out. snd (fill_gaps sp ip df g) = Inr out"
proof (cases "rows df = []")
  case True
  then show ?thesis by (simp add: fill_gaps_def empty_df_def)
next
  case ne: False
  define M where "M = calendar (rows (convert_dates df))"
  define means where "means = map MCARI_mean M"
  show ?thesis
  proof (cases "list_ex (\<lambda>g. g) (isnull M)")
    case False
    then show ?thesis using fill_gaps_complete [OF ne, of sp ip g] by (simp add: M_def)
  next
    case True
    obtain sm where sm: "whittaker_smooth (fillna (col_mean means) means) (weights (isnull M) g) 100 = Inr sm"
      using whittaker_smooth_returns [of "weights (isnull M) g" "fillna (col_mean means) means" 100]
      by (auto simp: fillna_def means_def isnull_def)
    have "interpolate_columns ip g (columns df) [''MCARI_min'', ''MCARI_max'', ''MCARI_stdDev''] rs
          = Inr rs" for rs
      using assms by (simp add: interpolate_columns.simps)
    then show ?thesis
      using fill_gaps_unfold [OF ne True M_def means_def, of sp ip g] sm by simp
  qed
qed

lemma keep_map: "map f (keep g sizes rs) = keep g sizes (map f rs)"
  by (simp add: keep_def zip_map2 filter_map comp_def case_prod_unfold)

lemma fill_gaps_filled_rows:
  assumes "snd (fill_gaps sp ip df g) = Inr out" "rows df \<noteq> []"
    "M = calendar (rows (convert_dates df))" "list_ex (\<lambda>g. g) (isnull M)"
  shows "days (rows out) = keep g (gap_sizes (isnull M)) (days M)"
    and "map is_interpolated (rows out) = keep g (gap_sizes (isnull M)) (map Some (isnull M))"
    and "(\<exists>r\<in>set M. MCARI_mean r \<noteq> None) \<Longrightarrow> \<forall>q\<in>set (rows out). MCARI_mean q \<noteq> None"
proof -
  from assms(1) obtain F where
    lF: "length F = length M" and out: "rows out = keep g (gap_sizes (isnull M)) F" and
    ff: "\<And>i. i < length F \<Longrightarrow> filled_from (M ! i) (isnull M ! i) (F ! i)" and
    fm: "\<And>i. i < length F \<Longrightarrow> MCARI_mean (M ! i) = None \<Longrightarrow>
          \<exists>sm. whittaker_smooth (fillna (col_mean (map MCARI_mean M)) (map MCARI_mean M))
                  (weights (isnull M) g) 100 = Inr sm
               \<and> MCARI_mean (F ! i) = fill_mean sp sm (map MCARI_mean M) ! i"
  proof (cases rule: fill_gaps_cases)
    case empty
    with assms(2) show ?thesis by simp
  next
    case complete
    with assms(3,4) show ?thesis by simp
  next
    case (filled F)
    show ?thesis
      by (rule that [of F]) (use filled in \<open>simp_all add: assms(3)\<close>)
  qed
  have "map (\<lambda>r. day_of (date r)) F = map (\<lambda>r. day_of (date r)) M"
    using lF ff by (intro nth_equalityI) (simp_all add: filled_from_def)
  then show "days (rows out) = keep g (gap_sizes (isnull M)) (days M)"
    by (simp add: out days_def keep_map)
  have "map is_interpolated F = map Some (isnull M)"
    using lF ff by (intro nth_equalityI) (simp_all add: filled_from_def isnull_def)
  then show "map is_interpolated (rows out) = keep g (gap_sizes (isnull M)) (map Some (isnull M))"
    by (simp add: out keep_map)
  show "\<forall>q\<in>set (rows out). MCARI_mean q \<noteq> None" if ex: "\<exists>r\<in>set M. MCARI_mean r \<noteq> None"
  proof
    fix q assume "q \<in> set (rows out)"
    then have "q \<in> set F" by (auto simp: out keep_def dest: set_zip_rightD)
    then obtain i where i: "i < length F" "q = F ! i" by (auto simp: in_set_conv_nth)
    show "MCARI_mean q \<noteq> None"
    proof (cases "MCARI_mean (M ! i)")
      case (Some v)
      then show ?thesis using ff [OF i(1)] i(2) by (simp add: filled_from_def)
    next
      case None
      from fm [OF i(1) None] obtain sm where
        sm: "whittaker_smooth (fillna (col_mean (map MCARI_mean M)) (map MCARI_mean M))
                  (weights (isnull M) g) 100 = Inr sm"
        and q: "MCARI_mean (F ! i) = fill_mean sp sm (map MCARI_mean M) ! i" by blast
      have "fill_mean sp sm (map MCARI_mean M) ! i \<noteq> None"
        by (rule fill_mean_filled [of "map MCARI_mean M" g])
           (use ex sm i(1) lF in \<open>simp_all add: isnull_def comp_def\<close>)
      then show ?thesis using q i(2) by simp
    qed
  qed
qed

lemma spec_example_calendar:
  "list_ex (\<lambda>g. g) (isnull (calendar (rows (convert_dates spec_example))))"
  "keep 32 (gap_sizes (isnull (calendar (rows (convert_dates spec_example)))))
        (days (calendar (rows (convert_dates spec_example))))
   = [0, 1, 2, 3, 4, 5, 6, 7, 8, 9, 10, 50]"
  "keep 32 (gap_sizes (isnull (calendar (rows (convert_dates spec_example)))))
        (map Some (isnull (calendar (rows (convert_dates spec_example)))))
   = [Some False, Some True, Some True, Some True, Some True, Some True, Some True, Some True,
      Some True, Some True, Some False, Some False]"
  by code_simp+

lemma upto_0_10: "[0..10] = [0, 1, 2, 3, 4, 5, 6, 7, 8, 9, 10]"
  by code_simp

lemma three_obs_calendar:
  "length (calendar (rows (convert_dates three_obs))) = 41"
  "list_ex (\<lambda>g. g) (isnull (calendar (rows (convert_dates three_obs))))"
  "valid_positions (map MCARI_min (calendar (rows (convert_dates three_obs)))) = [0, 20, 40]"
  by code_simp+

text \<open>With at most three observations no spline is fitted: the result does not depend on
  the spline, and the filled means are the smoother's values.\<close>

lemma smoother_only_path:
  assumes "length (valid_positions (map MCARI_mean (calendar (rows (convert_dates df))))) \<le> 3"
  shows "snd (fill_gaps sp ip df g) = snd (fill_gaps sp' ip df g)"
proof (cases "rows df = []")
  case True
  then show ?thesis by (simp add: fill_gaps_def empty_df_def)
next
  case ne: False
  define M where "M = calendar (rows (convert_dates df))"
  show ?thesis
  proof (cases "list_ex (\<lambda>g. g) (isnull M)")
    case False
    then show ?thesis
      using fill_gaps_complete [OF ne, of sp ip g] fill_gaps_complete [OF ne, of sp' ip g]
      by (simp add: M_def)
  next
    case True
    have e: "fill_mean sp sm (map MCARI_mean M) = fill_mean sp' sm (map MCARI_mean M)" for sm
      using assms unfolding M_def by (rule few_points_no_spline)
    show ?thesis
      unfolding fill_gaps_unfold [OF ne True M_def refl, of sp ip g]
        fill_gaps_unfold [OF ne True M_def refl, of sp' ip g]
      by (simp only: e)
  qed
qed

lemma three_obs_smoother_only:
  "length (valid_positions (map MCARI_mean (calendar (rows (convert_dates three_obs))))) \<le> 3"
  "length (valid_positions (map MCARI_mean (calendar (rows (convert_dates spec_example))))) \<le> 3"
  by code_simp+

section \<open>Sizes of the gaps\<close>

lemma cumsum_from_Suc:
  "Suc k < length bs \<Longrightarrow>
     cumsum_from a bs ! Suc k = cumsum_from a bs ! k + of_bool (bs ! Suc k)"
proof (induction bs arbitrary: a k)
  case Nil then show ?case by simp
next
  case (Cons b bs)
  show ?case
  proof (cases k)
    case 0
    with Cons.prems obtain b' bs' where "bs = b' # bs'" by (cases bs) auto
    with 0 show ?thesis by simp
  next
    case (Suc k')
    with Cons.prems have "Suc k' < length bs" by simp
    from Cons.IH [OF this] Suc show ?thesis by simp
  qed
qed

lemma ne_shift_Suc:
  "Suc k < length G \<Longrightarrow> ne G (shift G) ! Suc k = (G ! Suc k \<noteq> G ! k)"
  by (simp add: ne_def shift_def)

lemma length_ne_shift [simp]: "length (ne G (shift G)) = length G"
  by (simp add: ne_def shift_def)

lemma groups_step:
  "Suc k < length G \<Longrightarrow>
     cumsum (ne G (shift G)) ! Suc k
       = cumsum (ne G (shift G)) ! k + of_bool (G ! Suc k \<noteq> G ! k)"
  by (simp add: cumsum_def cumsum_from_Suc ne_shift_Suc)

lemma groups_mono:
  "i \<le> j \<Longrightarrow> j < length G \<Longrightarrow> cumsum (ne G (shift G)) ! i \<le> cumsum (ne G (shift G)) ! j"
proof (induction j)
  case 0 then show ?case by simp
next
  case (Suc j)
  show ?case
  proof (cases "i = Suc j")
    case True then show ?thesis by simp
  next
    case False
    with Suc.prems have "i \<le> j" "j < length G" by simp_all
    from Suc.IH [OF this] groups_step [OF Suc.prems(2)] show ?thesis by simp
  qed
qed

lemma groups_const:
  "i \<le> j \<Longrightarrow> j < length G \<Longrightarrow> (\<forall>k. i \<le> k \<and> k < j \<longrightarrow> G ! Suc k = G ! k)
     \<Longrightarrow> cumsum (ne G (shift G)) ! j = cumsum (ne G (shift G)) ! i"
proof (induction j)
  case 0 then show ?case by simp
next
  case (Suc j)
  show ?case
  proof (cases "i = Suc j")
    case True then show ?thesis by simp
  next
    case False
    with Suc.prems have ij: "i \<le> j" "j < length G" by simp_all
    have "\<forall>k. i \<le> k \<and> k < j \<longrightarrow> G ! Suc k = G ! k" using Suc.prems(3) by simp
    from Suc.IH [OF ij this] groups_step [OF Suc.prems(2)] Suc.prems(3) ij(1)
    show ?thesis by simp
  qed
qed

lemma groups_jump:
  "Suc k < length G \<Longrightarrow> G ! Suc k \<noteq> G ! k
     \<Longrightarrow> cumsum (ne G (shift G)) ! k < cumsum (ne G (shift G)) ! Suc k"
  by (simp add: groups_step)

lemma run_size:
  assumes "p \<le> i" "i \<le> q" "q < length G" "\<forall>k. p \<le> k \<and> k \<le> q \<longrightarrow> G ! k"
    "p = 0 \<or> \<not> G ! (p - 1)" "Suc q = length G \<or> \<not> G ! Suc q"
  shows "gap_sizes G ! i = Suc q - p"
proof -
  define ids where "ids = cumsum (ne G (shift G))"
  have lids: "length ids = length G" by (simp add: ids_def cumsum_def)
  have inside: "ids ! j = ids ! p" if "p \<le> j" "j \<le> q" for j
    unfolding ids_def using that assms(3,4) by (intro groups_const) auto
  have below: "ids ! j < ids ! p" if "j < p" for j
  proof -
    from that assms(5) have p: "0 < p" "\<not> G ! (p - 1)" by auto
    have "G ! p" using assms(1,2,4) by auto
    with p have "ids ! (p - 1) < ids ! Suc (p - 1)"
      unfolding ids_def using assms(1-3) by (intro groups_jump) auto
    moreover have "ids ! j \<le> ids ! (p - 1)"
      unfolding ids_def using that assms(1-3) by (intro groups_mono) auto
    ultimately show ?thesis using p(1) by simp
  qed
  have above: "ids ! q < ids ! j" if "q < j" "j < length G" for j
  proof -
    from that assms(6) have q: "Suc q < length G" "\<not> G ! Suc q" by auto
    have "G ! q" using assms(1,2,4) by auto
    with q have "ids ! q < ids ! Suc q"
      unfolding ids_def by (intro groups_jump) auto
    moreover have "ids ! Suc q \<le> ids ! j"
      unfolding ids_def using that by (intro groups_mono) auto
    ultimately show ?thesis by simp
  qed
  have "{j. j < length ids \<and> ids ! i = ids ! j} = {p..q}"
  proof (intro set_eqI iffI)
    fix j assume "j \<in> {j. j < length ids \<and> ids ! i = ids ! j}"
    then have j: "j < length G" "ids ! i = ids ! j" using lids by auto
    have e: "ids ! i = ids ! p" "ids ! q = ids ! p"
      using inside [of i] inside [of q] assms(1,2) by linarith+
    have "\<not> j < p"
    proof
      assume "j < p"
      from below [OF this] e(1) j(2) show False by simp
    qed
    moreover have "\<not> q < j"
    proof
      assume "q < j"
      from above [OF this j(1)] e j(2) show False by simp
    qed
    ultimately show "j \<in> {p..q}" by simp
  next
    fix j assume "j \<in> {p..q}"
    then have "p \<le> j" "j \<le> q" by simp_all
    then have "ids ! j = ids ! p" "j < length ids"
      using inside [of j] assms(3) lids by linarith+
    moreover have "ids ! i = ids ! p" using inside [of i] assms(1,2) by linarith
    ultimately show "j \<in> {j. j < length ids \<and> ids ! i = ids ! j}" by simp
  qed
  then have "count_list ids (ids ! i) = Suc q - p"
    by (simp add: count_list_eq_length_filter length_filter_conv_card)
  moreover have "G ! i" using assms(1,2,4) by auto
  ultimately show ?thesis
    using assms(2,3) lids
    by (simp add: gap_sizes_def Let_def transform_size_def ids_def [symmetric])
qed

lemma calendar_gaps:
  assumes "distinct (days (rows df))" "\<forall>r\<in>set (rows df). MCARI_mean r \<noteq> None"
    and M: "M = calendar (rows (convert_dates df))"
    and lo: "lo = Min (set (days (rows df)))" and hi: "hi = Max (set (days (rows df)))"
  shows "days M = [lo..hi]"
    and "\<And>i. i < length M \<Longrightarrow> isnull M ! i \<longleftrightarrow> lo + int i \<notin> set (days (rows df))"
proof -
  define X where "X = sort_values (rows (convert_dates df))"
  define T where "T = date_range lo hi"
  have dX: "distinct (map date X)" unfolding X_def by (rule distinct_dates_sorted [OF assms(1)])
  have MX: "M = merge_left T X"
    by (simp add: M calendar_alt days_convert_dates lo hi T_def X_def)
  show dM: "days M = [lo..hi]" unfolding M lo hi by (rule calendar_days [OF assms(1)])
  have lM: "length M = length T" unfolding MX by (rule merge_left_distinct(2) [OF dX])
  have lT: "length T = length [lo..hi]" by (simp add: T_def date_range_def)
  have setX: "set X = set (rows (convert_dates df))" by (simp add: X_def sort_values_def)
  show "isnull M ! i \<longleftrightarrow> lo + int i \<notin> set (days (rows df))" if "i < length M" for i
  proof -
    have iT: "i < length T" using that lM by simp
    then have "i < length [lo..hi]" using lT by simp
    then have "[lo..hi] ! i = lo + int i" by (intro nth_upto) auto
    then have Ti: "T ! i = Timestamp (lo + int i)"
      using iT lT by (simp add: T_def date_range_def)
    from merge_left_distinct(3) [OF dX iT, folded MX]
    show ?thesis
    proof
      assume "M ! i \<in> set X"
      then obtain r where r: "r \<in> set (rows df)" "M ! i = r\<lparr>date := Timestamp (day_of (date r))\<rparr>"
        by (auto simp: setX rows_convert_dates)
      have "date (M ! i) = T ! i"
        using merge_left_distinct(1) [OF dX, of T, folded MX] iT
        by (metis nth_map that)
      with r Ti have "day_of (date r) = lo + int i" by simp
      with r(1) have "lo + int i \<in> set (days (rows df))" by (force simp: days_def)
      moreover have "MCARI_mean (M ! i) \<noteq> None" using r assms(2) by simp
      ultimately show ?thesis using that by (simp add: isnull_def)
    next
      assume n: "M ! i = null_row (T ! i) \<and> (\<forall>r\<in>set X. date r \<noteq> T ! i)"
      have "lo + int i \<notin> set (days (rows df))"
      proof
        assume "lo + int i \<in> set (days (rows df))"
        then obtain r where r: "r \<in> set (rows df)" "day_of (date r) = lo + int i"
          by (auto simp: days_def)
        have "r\<lparr>date := Timestamp (day_of (date r))\<rparr>
                \<in> (\<lambda>r. r\<lparr>date := Timestamp (day_of (date r))\<rparr>) ` set (rows df)"
          using r(1) by (rule imageI)
        then have "r\<lparr>date := Timestamp (day_of (date r))\<rparr> \<in> set X"
          by (simp add: setX rows_convert_dates)
        with n r(2) Ti show False by auto
      qed
      moreover have "MCARI_mean (M ! i) = None" using n by (simp add: null_row_def)
      ultimately show ?thesis using that by (simp add: isnull_def)
    qed
  qed
qed

lemma gap_day_kept:
  assumes out: "snd (fill_gaps sp ip df g) = Inr out"
    and "distinct (days (rows df))" "\<forall>r\<in>set (rows df). MCARI_mean r \<noteq> None"
    and a: "a \<in> set (days (rows df))" and b: "b \<in> set (days (rows df))"
    and "a < d" "d < b" and none: "\<forall>e. a < e \<and> e < b \<longrightarrow> e \<notin> set (days (rows df))"
  shows "d \<in> set (days (rows out)) \<longleftrightarrow> b - a - 1 \<le> g"
proof -
  define M where "M = calendar (rows (convert_dates df))"
  define lo where "lo = Min (set (days (rows df)))"
  define hi where "hi = Max (set (days (rows df)))"
  define G where "G = isnull M"
  note cg = calendar_gaps [OF assms(2,3) M_def lo_def hi_def]
  have ne: "rows df \<noteq> []" using a by (auto simp: days_def)
  have lo_a: "lo \<le> a" and b_hi: "b \<le> hi" unfolding lo_def hi_def using a b by simp_all
  have lM: "length M = nat (hi - lo + 1)"
    using arg_cong [OF cg(1), of length] by (simp add: days_def)
  have lG: "length G = length M" by (simp add: G_def isnull_def)
  have gap: "G ! i \<longleftrightarrow> lo + int i \<notin> set (days (rows df))" if "i < length M" for i
    unfolding G_def by (rule cg(2) [OF that])
  define p where "p = nat (a + 1 - lo)"
  define q where "q = nat (b - 1 - lo)"
  define i where "i = nat (d - lo)"
  have idx: "p \<le> i" "i \<le> q" "q < length G"
    using lo_a b_hi assms(6,7) by (simp_all add: p_def q_def i_def lG lM)
  have run: "\<forall>k. p \<le> k \<and> k \<le> q \<longrightarrow> G ! k"
  proof (intro allI impI)
    fix k assume k: "p \<le> k \<and> k \<le> q"
    then have "k < length M" using idx(3) lG by simp
    moreover have "a < lo + int k" "lo + int k < b"
      using k lo_a assms(6,7) by (simp_all add: p_def q_def) linarith+
    ultimately show "G ! k" using gap none by simp
  qed
  have before: "p = 0 \<or> \<not> G ! (p - 1)"
  proof -
    have "p - 1 < length M" using idx lG by simp
    moreover have "lo + int (p - 1) = a" using lo_a by (simp add: p_def)
    ultimately show ?thesis using gap [of "p - 1"] a by simp
  qed
  have after: "Suc q = length G \<or> \<not> G ! Suc q"
  proof (cases "Suc q = length G")
    case True then show ?thesis by simp
  next
    case False
    then have "Suc q < length M" using idx(3) lG by simp
    moreover have "lo + int (Suc q) = b" using lo_a assms(6,7) by (simp add: q_def)
    ultimately show ?thesis using gap [of "Suc q"] b by simp
  qed
  have size: "int (gap_sizes G ! i) = b - a - 1"
    using run_size [OF idx run before after] lo_a assms(6,7) by (simp add: p_def q_def)
  have gi: "G ! i" using run idx by simp
  moreover have "G ! i \<in> set G" using idx by simp
  ultimately have ex: "list_ex (\<lambda>g. g) G" unfolding list_ex_iff by blast
  have dout: "days (rows out) = keep g (gap_sizes G) (days M)"
    unfolding G_def by (rule fill_gaps_filled_rows(1) [OF out ne M_def ex [unfolded G_def]])
  have ld: "length (gap_sizes G) = length (days M)" by (simp add: lG days_def)
  have dn: "days M ! j = lo + int j" if "j < length M" for j
  proof -
    have "j < length [lo..hi]" using that lM by simp
    then have "[lo..hi] ! j = lo + int j" by (intro nth_upto) auto
    then show ?thesis by (simp add: cg(1))
  qed
  have "d \<in> set (days (rows out)) \<longleftrightarrow> int (gap_sizes G ! i) \<le> g"
  proof
    assume "d \<in> set (days (rows out))"
    then obtain j where j: "j < length (days M)" "d = days M ! j" "int (gap_sizes G ! j) \<le> g"
      unfolding dout using keep_in [OF ld] by metis
    then have "d = lo + int j" using dn by (simp add: days_def)
    then have "j = i" by (simp add: i_def)
    with j(3) show "int (gap_sizes G ! i) \<le> g" by simp
  next
    assume k: "int (gap_sizes G ! i) \<le> g"
    have iM: "i < length (days M)" using idx lG by (simp add: days_def)
    then have "days M ! i \<in> set (keep g (gap_sizes G) (days M))"
      using keep_has [OF ld iM k] by simp
    moreover have "days M ! i = d" using dn [of i] iM lo_a assms(6) by (simp add: i_def days_def)
    ultimately show "d \<in> set (days (rows out))" by (simp add: dout)
  qed
  with size show ?thesis by simp
qed

lemma missing_run_neighbours:
  assumes "d \<notin> set ds" "lo \<in> set ds" "hi \<in> set ds" "lo < d" "d < hi"
  defines "a \<equiv> Max (set (filter (\<lambda>a. a < d) ds))" and "b \<equiv> Min (set (filter (\<lambda>b. d < b) ds))"
  shows "a \<in> set ds" "b \<in> set ds" "a < d" "d < b" "\<forall>e. a < e \<and> e < b \<longrightarrow> e \<notin> set ds"
    "missing_run ds d = b - a - 1"
proof -
  have A: "set (filter (\<lambda>a. a < d) ds) \<noteq> {}" "finite (set (filter (\<lambda>a. a < d) ds))"
    using assms(2,4) by (auto simp: filter_empty_conv)
  have B: "set (filter (\<lambda>b. d < b) ds) \<noteq> {}" "finite (set (filter (\<lambda>b. d < b) ds))"
    using assms(3,5) by (auto simp: filter_empty_conv)
  have a: "a \<in> set (filter (\<lambda>a. a < d) ds)" unfolding a_def using A by (intro Max_in)
  have b: "b \<in> set (filter (\<lambda>b. d < b) ds)" unfolding b_def using B by (intro Min_in)
  from a b show "a \<in> set ds" "b \<in> set ds" "a < d" "d < b" by simp_all
  show "\<forall>e. a < e \<and> e < b \<longrightarrow> e \<notin> set ds"
  proof (intro allI impI notI)
    fix e assume e: "a < e \<and> e < b" "e \<in> set ds"
    have "e \<noteq> d" using e(2) assms(1) by auto
    then consider "e < d" | "d < e" by linarith
    then show False
    proof cases
      case 1
      then have "e \<in> set (filter (\<lambda>a. a < d) ds)" using e(2) by simp
      then have "e \<le> a" unfolding a_def using A(2) by (intro Max_ge)
      with e(1) show False by simp
    next
      case 2
      then have "e \<in> set (filter (\<lambda>b. d < b) ds)" using e(2) by simp
      then have "b \<le> e" unfolding b_def using B(2) by (intro Min_le)
      with e(1) show False by simp
    qed
  qed
  show "missing_run ds d = b - a - 1" by (simp add: missing_run_def a_def b_def)
qed

lemma gap_row_flagged:
  assumes "snd (fill_gaps sp ip df g) = Inr out" "q \<in> set (rows out)"
    "day_of (date q) \<notin> set (days (rows df))"
  shows "is_interpolated q = Some True"
proof -
  define M where "M = calendar (rows (convert_dates df))"
  have null: "MCARI_mean m = None" if "m \<in> set M" "day_of (date m) = day_of (date q)" for m
  proof -
    from calendar_in(1) [OF that(1) [unfolded M_def]]
    show ?thesis
    proof
      assume "m \<in> set (rows (convert_dates df))"
      then have "day_of (date m) \<in> set (days (rows (convert_dates df)))" by (simp add: days_def)
      with assms(3) that(2) show ?thesis by (simp add: days_convert_dates)
    next
      assume "m = null_row (date m) \<and> (\<forall>r\<in>set (rows (convert_dates df)). date r \<noteq> date m)"
      then have "m = null_row (date m)" ..
      then have "MCARI_mean m = MCARI_mean (null_row (date m))" by simp
      then show ?thesis by (simp add: null_row_def)
    qed
  qed
  from assms(1) show ?thesis
  proof (cases rule: fill_gaps_cases)
    case empty
    with assms(2) show ?thesis by simp
  next
    case complete
    from assms(2) complete(3) have "q \<in> set M" by (simp add: M_def)
    then have "MCARI_mean q = None" by (rule null) simp
    with \<open>q \<in> set M\<close> have "list_ex (\<lambda>g. g) (isnull M)" by (auto simp: list_ex_iff isnull_def)
    with complete(2) show ?thesis by (simp add: M_def)
  next
    case (filled F)
    have ls: "length (gap_sizes (isnull M)) = length F" using filled(3) by (simp add: M_def isnull_def)
    from assms(2) filled(4) have "q \<in> set (keep g (gap_sizes (isnull M)) F)" by (simp add: M_def)
    then obtain i where i: "i < length F" "q = F ! i" by (rule keep_in [OF ls])
    have ff: "filled_from (M ! i) (isnull M ! i) q" using filled(5) [OF i(1)] i(2) by (simp add: M_def)
    have iM: "i < length M" using i(1) filled(3) by (simp add: M_def)
    then have "M ! i \<in> set M" by simp
    moreover have "day_of (date (M ! i)) = day_of (date q)" using ff by (simp add: filled_from_def)
    ultimately have "MCARI_mean (M ! i) = None" by (rule null)
    then have "isnull M ! i" using iM by (simp add: isnull_def)
    with ff show ?thesis by (simp add: filled_from_def)
  qed
qed

lemma gap_obs_negative:
  "result_days (snd (fill_gaps flat_spline flat_interp gap_obs (- 1))) = Inr []"
  "days (rows gap_obs) = [0, 1, 3]"
  by code_simp+

section \<open>Observed rows\<close>

text \<open>
  C1. When \<open>fill_gaps\<close> returns a frame for an input with unique dates, every row of the
  output on the date of a real observation carries that observation: the same mean (exactly,
  since observed cells are never assigned), the same cloud cover, every secondary statistic
  the observation has, and an interpolation flag that is not set.
\<close>

theorem observed_values_exact:
  assumes "snd (fill_gaps sp ip df g) = Inr out" "distinct (days (rows df))"
    "r \<in> set (rows df)" "real_observation r"
    "q \<in> set (rows out)" "day_of (date q) = day_of (date r)"
  shows "MCARI_mean q = MCARI_mean r
       \<and> (MCARI_stdDev r \<noteq> None \<longrightarrow> MCARI_stdDev q = MCARI_stdDev r)
       \<and> (MCARI_min r \<noteq> None \<longrightarrow> MCARI_min q = MCARI_min r)
       \<and> (MCARI_max r \<noteq> None \<longrightarrow> MCARI_max q = MCARI_max r)
       \<and> cloud_cover q = cloud_cover r
       \<and> is_interpolated q \<noteq> Some True"
  using observed_row_exact [OF assms] assms(4)
  by (auto simp: filled_from_def real_observation_def)

theorem observed_values_exact_witness:
  "snd (fill_gaps flat_spline flat_interp two_obs 32) = Inr two_obs_filled
   \<and> distinct (days (rows two_obs))
   \<and> observation (DateStr 0) 1 \<in> set (rows two_obs)
   \<and> real_observation (observation (DateStr 0) 1)
   \<and> (observation (Timestamp 0) 1)\<lparr>is_interpolated := Some False\<rparr> \<in> set (rows two_obs_filled)
   \<and> MCARI_mean ((observation (Timestamp 0) 1)\<lparr>is_interpolated := Some False\<rparr>) = Some 1
   \<and> is_interpolated ((observation (Timestamp 0) 1)\<lparr>is_interpolated := Some False\<rparr>) \<noteq> Some True"
  using observed_values_exact [OF fill_two_obs, of "observation (DateStr 0) 1"
      "(observation (Timestamp 0) 1)\<lparr>is_interpolated := Some False\<rparr>"] fill_two_obs
  by (simp add: two_obs_def two_obs_filled_def days_def observation_def null_row_def
      real_observation_def)

text \<open>
  C8. When \<open>fill_gaps\<close> returns a frame for an input with unique dates, the dates of the
  output are strictly increasing.
\<close>

theorem dates_strictly_increasing:
  assumes "snd (fill_gaps sp ip df g) = Inr out" "distinct (days (rows df))"
  shows "sorted_wrt (<) (days (rows out))"
proof -
  define M where "M = calendar (rows (convert_dates df))"
  define lo where "lo = Min (set (days (rows df)))"
  define hi where "hi = Max (set (days (rows df)))"
  have dM: "days M = [lo..hi]" unfolding M_def lo_def hi_def by (rule calendar_days [OF assms(2)])
  from assms(1) show ?thesis
  proof (cases rule: fill_gaps_cases)
    case empty
    then show ?thesis by (simp add: days_def)
  next
    case complete
    then show ?thesis using dM by (simp add: M_def)
  next
    case (filled F)
    have lF: "length F = length M" using filled(3) by (simp add: M_def)
    have ls: "length (gap_sizes (isnull M)) = length F" by (simp add: lF isnull_def)
    have out: "rows out = map (\<lambda>i. F ! i)
                 (filter (\<lambda>i. int (gap_sizes (isnull M) ! i) \<le> g) [0..<length F])"
      using filled(4) keep_conv [OF ls] by (simp add: M_def)
    have day: "day_of (date (F ! i)) = lo + int i" if "i < length F" for i
    proof -
      have "date (F ! i) = date (M ! i)"
        using filled(5) [OF that] by (simp add: filled_from_def M_def)
      moreover have "day_of (date (M ! i)) = days M ! i" using that lF by (simp add: days_def)
      moreover have "length (days M) = length M" by (simp add: days_def)
      then have "length [lo..hi] = length F" using lF by (simp only: dM)
      then have "[lo..hi] ! i = lo + int i" using that by (intro nth_upto) auto
      ultimately show ?thesis using dM by simp
    qed
    have "days (rows out) = map (\<lambda>i. lo + int i)
                 (filter (\<lambda>i. int (gap_sizes (isnull M) ! i) \<le> g) [0..<length F])"
      by (simp add: out days_def day)
    moreover have "sorted_wrt (<) (filter (\<lambda>i. int (gap_sizes (isnull M) ! i) \<le> g) [0..<length F])"
      by (intro sorted_wrt_filter) (simp add: sorted_wrt_iff_nth_less)
    ultimately show ?thesis by (simp add: sorted_wrt_map)
  qed
qed

theorem dates_strictly_increasing_witness:
  "snd (fill_gaps flat_spline flat_interp two_obs 32) = Inr two_obs_filled
   \<and> distinct (days (rows two_obs))
   \<and> sorted_wrt (<) (days (rows two_obs_filled))
   \<and> days (rows two_obs_filled) = [0, 1, 2]"
  using dates_strictly_increasing [OF fill_two_obs] fill_two_obs
  by (simp add: two_obs_def two_obs_filled_def days_def observation_def null_row_def)

text \<open>
  C10, at its failing input. The three observations of \<open>three_obs\<close> are real observations
  and the threshold is not negative, yet no observed row is retained, because the call
  returns no output: with \<open>max_gap_days = 32\<close> the cubic interpolation of \<^verbatim>\<open>MCARI_min\<close>
  through three points raises \<open>ValueError\<close>, and with \<open>max_gap_days = 0\<close> the same call
  raises it for \<^verbatim>\<open>limit=0\<close>.
\<close>

theorem observed_rows_lost:
  "rows three_obs \<noteq> [] \<and> list_all real_observation (rows three_obs)
   \<and> snd (fill_gaps sp ip three_obs 32) = Inl ValueError
   \<and> snd (fill_gaps sp ip three_obs 0) = Inl ValueError"
proof (intro conjI)
  show "rows three_obs \<noteq> []" by (simp add: three_obs_def)
  show "list_all real_observation (rows three_obs)"
    by (simp add: three_obs_def real_observation_def full_observation_def)
  show "snd (fill_gaps sp ip three_obs 32) = Inl ValueError"
    by (rule fill_gaps_few_points [OF _ refl three_obs_calendar(2)])
       (simp_all add: three_obs_calendar, simp_all add: three_obs_def)
  show "snd (fill_gaps sp ip three_obs 0) = Inl ValueError"
    by (rule fill_gaps_no_limit [OF _ refl three_obs_calendar(2)]) (simp_all add: three_obs_def)
qed

text \<open>
  Whenever the call does return a frame, for a non-empty input and a threshold that is not
  negative, the observed rows are in it: every input row with a mean has a row of its date
  and mean in the output; and if all input rows are real observations, the output is not
  empty and its first and its last row are observed rows, each with the date and mean of an
  input row and a flag that is not set.
\<close>

lemma observed_rows_retained_on_return:
  assumes "snd (fill_gaps sp ip df g) = Inr out" "rows df \<noteq> []" "0 \<le> g"
  shows "(\<forall>r\<in>set (rows df). MCARI_mean r \<noteq> None \<longrightarrow>
            (\<exists>q\<in>set (rows out). day_of (date q) = day_of (date r) \<and> MCARI_mean q = MCARI_mean r))
       \<and> (list_all real_observation (rows df) \<longrightarrow>
            rows out \<noteq> []
            \<and> is_interpolated (hd (rows out)) \<noteq> Some True
            \<and> (\<exists>r\<in>set (rows df). day_of (date (hd (rows out))) = day_of (date r)
                                     \<and> MCARI_mean (hd (rows out)) = MCARI_mean r)
            \<and> is_interpolated (last (rows out)) \<noteq> Some True
            \<and> (\<exists>r\<in>set (rows df). day_of (date (last (rows out))) = day_of (date r)
                                     \<and> MCARI_mean (last (rows out)) = MCARI_mean r))"
proof (intro conjI impI)
  show "\<forall>r\<in>set (rows df). MCARI_mean r \<noteq> None \<longrightarrow>
            (\<exists>q\<in>set (rows out). day_of (date q) = day_of (date r) \<and> MCARI_mean q = MCARI_mean r)"
    by (rule observed_row_kept [OF assms(1,3)])
qed (rule ends_observed [OF assms(1,3,2)], assumption)+

section \<open>Which days are kept\<close>

text \<open>
  C2 as stated fails for a negative threshold: the filter \<open>gap_sizes \<le> max_gap_days\<close> then
  drops the observed rows as well (their size is 0). For observations on the days 0, 1 and 3
  and \<open>max_gap_days = -1\<close> the output is empty, though day 1 is observed and lies strictly
  between the first and the last day.
\<close>

theorem negative_threshold_counterexample:
  "result_days (snd (fill_gaps flat_spline flat_interp gap_obs (- 1))) = Inr []
   \<and> (1::int) \<in> set (days (rows gap_obs))
   \<and> Min (set (days (rows gap_obs))) < 1 \<and> 1 < Max (set (days (rows gap_obs)))"
  by (simp add: gap_obs_negative)

text \<open>
  C2, amended. For a non-empty set of observations with means and unique dates and a threshold
  that is not negative, when \<open>fill_gaps\<close> returns a frame: a day strictly between the first
  and the last observed day is in the output if and only if it is observed or the maximal
  run of missing days around it is at most \<open>max_gap_days\<close> long; and a row of the output on
  a day without observation is flagged as interpolated. So the days of a run of exactly
  \<open>max_gap_days\<close> missing days are all there, as interpolated rows, and of a run of
  \<open>max_gap_days + 1\<close> days no row is left. The value in such a row is the one the
  smoothing step computes; whether it is a number is a matter of the floating-point
  computation and is not stated here.
\<close>

theorem calendar_completeness:
  assumes "snd (fill_gaps sp ip df g) = Inr out" "0 \<le> g" "rows df \<noteq> []"
    "distinct (days (rows df))" "list_all (\<lambda>r. MCARI_mean r \<noteq> None) (rows df)"
    "Min (set (days (rows df))) < d" "d < Max (set (days (rows df)))"
  shows "(d \<in> set (days (rows out))
            \<longleftrightarrow> d \<in> set (days (rows df)) \<or> missing_run (days (rows df)) d \<le> g)
       \<and> (d \<notin> set (days (rows df)) \<longrightarrow>
            (\<forall>q\<in>set (rows out). day_of (date q) = d \<longrightarrow> is_interpolated q = Some True))"
proof
  have means: "\<forall>r\<in>set (rows df). MCARI_mean r \<noteq> None"
    using assms(5) by (simp add: list_all_iff)
  show "d \<notin> set (days (rows df)) \<longrightarrow>
            (\<forall>q\<in>set (rows out). day_of (date q) = d \<longrightarrow> is_interpolated q = Some True)"
    using gap_row_flagged [OF assms(1)] by blast
  show "d \<in> set (days (rows out))
            \<longleftrightarrow> d \<in> set (days (rows df)) \<or> missing_run (days (rows df)) d \<le> g"
  proof (cases "d \<in> set (days (rows df))")
    case True
    then obtain r where r: "r \<in> set (rows df)" "day_of (date r) = d" by (auto simp: days_def)
    with means observed_row_kept [OF assms(1,2)] obtain q where
      "q \<in> set (rows out)" "day_of (date q) = d" by metis
    then have "d \<in> set (days (rows out))" by (force simp: days_def)
    with True show ?thesis by simp
  next
    case False
    have ne: "set (days (rows df)) \<noteq> {}" using assms(3) by (simp add: days_def)
    have lo: "Min (set (days (rows df))) \<in> set (days (rows df))" using ne by (intro Min_in) simp_all
    have hi: "Max (set (days (rows df))) \<in> set (days (rows df))" using ne by (intro Max_in) simp_all
    note nb = missing_run_neighbours [OF False lo hi assms(6,7)]
    from gap_day_kept [OF assms(1,4) means nb(1-5)] nb(6) False
    show ?thesis by simp
  qed
qed

theorem calendar_completeness_witness:
  "snd (fill_gaps flat_spline flat_interp two_obs 32) = Inr two_obs_filled
   \<and> (0::int) \<le> 32 \<and> rows two_obs \<noteq> []
   \<and> distinct (days (rows two_obs))
   \<and> list_all (\<lambda>r. MCARI_mean r \<noteq> None) (rows two_obs)
   \<and> Min (set (days (rows two_obs))) < 1 \<and> 1 < Max (set (days (rows two_obs)))
   \<and> 1 \<in> set (days (rows two_obs_filled))
   \<and> 1 \<notin> set (days (rows two_obs))
   \<and> missing_run (days (rows two_obs)) 1 = 1
   \<and> day_of (date (rows two_obs_filled ! 1)) = 1
   \<and> is_interpolated (rows two_obs_filled ! 1) = Some True"
  using calendar_completeness [OF fill_two_obs, of 1] fill_two_obs
  by (simp add: two_obs_def two_obs_filled_def days_def observation_def null_row_def
      real_observation_def missing_run_def)

section \<open>Few observations\<close>

text \<open>
  C5, at its failing input. Three observations with their secondary statistics, 20 days
  apart, \<open>max_gap_days = 32\<close>: the mean is filled on the smoother-only path, but the loop
  over the secondary columns then asks pandas for a cubic interpolation through three
  points, and the call raises \<open>ValueError\<close>.
\<close>

theorem few_points_raise:
  "snd (fill_gaps sp ip three_obs 32) = Inl ValueError"
  by (rule fill_gaps_few_points [OF _ refl three_obs_calendar(2)])
     (simp_all add: three_obs_calendar, simp_all add: three_obs_def)

section \<open>The end-to-end example\<close>

text \<open>
  C4 as stated fails: for observations on days 0, 10 and 50 and \<open>max_gap_days = 32\<close> the
  output holds the days 0 to 10 and the day 50; the days 11 to 42, which the claim lists as
  retained, are absent with the rest of the 39-day run.
\<close>

theorem spec_example_counterexample:
  "result_days (snd (fill_gaps flat_spline flat_interp spec_example 32)) = Inr ([0..10] @ [50])
   \<and> (42::int) \<notin> set ([0..10] @ [50])
   \<and> result_days (snd (fill_gaps flat_spline flat_interp spec_example 32)) \<noteq> Inr ([0..42] @ [50])"
proof -
  obtain out where out: "snd (fill_gaps flat_spline flat_interp spec_example 32) = Inr out"
    using fill_gaps_returns [of spec_example flat_spline flat_interp 32]
    by (auto simp: spec_example_def)
  have "rows spec_example \<noteq> []" by (simp add: spec_example_def)
  from fill_gaps_filled_rows(1) [OF out this refl spec_example_calendar(1)]
  have "days (rows out) = [0..10] @ [50]"
    by (simp add: spec_example_calendar(2) upto_0_10)
  then have r: "result_days (snd (fill_gaps flat_spline flat_interp spec_example 32))
             = Inr ([0..10] @ [50])"
    by (simp add: out result_days_def)
  have "length ([0..10] @ [50::int]) \<noteq> length ([0..42] @ [50::int])" by simp
  then have "[0..10] @ [50::int] \<noteq> [0..42] @ [50]" by metis
  with r show ?thesis by simp
qed

text \<open>
  C4, amended. For the observations of day 0 (mean 0.3), day 10 (mean 0.5) and day 50
  (mean 0.4), given by their means, and \<open>max_gap_days = 32\<close>, the call returns the days 0
  to 10 and the day 50: the nine days of the first gap are filled and flagged as
  interpolated, the 39 days of the second gap are absent, and the rows of the days 0, 10
  and 50 carry the observed means and are not flagged.
\<close>

theorem spec_example_filled:
  "\<exists>out. snd (fill_gaps sp ip spec_example 32) = Inr out
     \<and> days (rows out) = [0..10] @ [50]
     \<and> map is_interpolated (rows out)
         = Some False # replicate 9 (Some True) @ [Some False, Some False]
     \<and> (\<forall>q\<in>set (rows out). MCARI_mean q \<noteq> None)
     \<and> (\<forall>q\<in>set (rows out).
           (day_of (date q) = 0 \<longrightarrow> MCARI_mean q = Some 0.3)
         \<and> (day_of (date q) = 10 \<longrightarrow> MCARI_mean q = Some 0.5)
         \<and> (day_of (date q) = 50 \<longrightarrow> MCARI_mean q = Some 0.4))"
proof -
  obtain out where out: "snd (fill_gaps sp ip spec_example 32) = Inr out"
    using fill_gaps_returns [of spec_example sp ip 32]
    by (auto simp: spec_example_def)
  have ne: "rows spec_example \<noteq> []" by (simp add: spec_example_def)
  note fr = fill_gaps_filled_rows [OF out ne refl spec_example_calendar(1)]
  have d: "days (rows out) = [0..10] @ [50]"
    using fr(1) by (simp add: spec_example_calendar(2) upto_0_10)
  have f: "map is_interpolated (rows out)
         = Some False # replicate 9 (Some True) @ [Some False, Some False]"
    using fr(2) by (simp add: spec_example_calendar(3) numeral_eq_Suc)
  have "observation (Timestamp 0) 0.3 \<in> set (calendar (rows (convert_dates spec_example)))"
    using calendar_row_of [of "observation (DateStr 0) 0.3" spec_example]
    by (simp add: spec_example_def observation_def null_row_def)
  then have "\<exists>r\<in>set (calendar (rows (convert_dates spec_example))). MCARI_mean r \<noteq> None"
    by (rule bexI [rotated]) (simp add: observation_def)
  then have m: "\<forall>q\<in>set (rows out). MCARI_mean q \<noteq> None" by (rule fr(3))
  have dist: "distinct (days (rows spec_example))"
    by (simp add: spec_example_def days_def observation_def null_row_def)
  have obs: "MCARI_mean q = Some v"
    if "q \<in> set (rows out)" "day_of (date q) = d" "observation (DateStr d) v \<in> set (rows spec_example)"
    for q d v
  proof -
    have "real_observation (observation (DateStr d) v)"
      by (simp add: real_observation_def observation_def null_row_def)
    moreover have "day_of (date q) = day_of (date (observation (DateStr d) v))"
      using that(2) by (simp add: observation_def null_row_def)
    ultimately have "filled_from (observation (DateStr d) v) False
                       (q\<lparr>date := date (observation (DateStr d) v)\<rparr>)
        \<or> q = (observation (DateStr d) v)
                 \<lparr>date := Timestamp (day_of (date (observation (DateStr d) v)))\<rparr>"
      by (rule observed_row_exact [OF out dist that(3) _ that(1)])
    then have "MCARI_mean q = MCARI_mean (observation (DateStr d) v)"
    proof
      assume "filled_from (observation (DateStr d) v) False
                (q\<lparr>date := date (observation (DateStr d) v)\<rparr>)"
      then show ?thesis by (simp add: filled_from_def observation_def null_row_def)
    next
      assume e: "q = (observation (DateStr d) v)
                 \<lparr>date := Timestamp (day_of (date (observation (DateStr d) v)))\<rparr>"
      show ?thesis by (subst e) simp
    qed
    then show ?thesis by (simp add: observation_def null_row_def)
  qed
  have o: "\<forall>q\<in>set (rows out).
           (day_of (date q) = 0 \<longrightarrow> MCARI_mean q = Some 0.3)
         \<and> (day_of (date q) = 10 \<longrightarrow> MCARI_mean q = Some 0.5)
         \<and> (day_of (date q) = 50 \<longrightarrow> MCARI_mean q = Some 0.4)"
    using obs by (simp add: spec_example_def)
  show ?thesis by (rule exI [of _ out]) (intro conjI out d f m o)
qed

theorem spec_example_filled_witness:
  "\<exists>out. snd (fill_gaps flat_spline flat_interp spec_example 32) = Inr out
     \<and> days (rows out) = [0, 1, 2, 3, 4, 5, 6, 7, 8, 9, 10, 50]
     \<and> list_all (\<lambda>q. MCARI_mean q \<noteq> None) (rows out)"
proof -
  from spec_example_filled [of flat_spline flat_interp] obtain out where
    "snd (fill_gaps flat_spline flat_interp spec_example 32) = Inr out"
    "days (rows out) = [0..10] @ [50]" "\<forall>q\<in>set (rows out). MCARI_mean q \<noteq> None"
    by blast
  then show ?thesis by (simp add: upto_0_10 list_all_iff)
qed

section \<open>The caller's frame\<close>

declare str_nat.simps [simp del]

lemma fst_fill_gaps: "fst (fill_gaps sp ip df g) = convert_dates df"
  by (simp add: fill_gaps_def empty_df_def convert_dates_def Let_def split: sum.splits)

lemma fst_validate_results: "fst (validate_results df) = convert_dates df"
  by (simp add: validate_results_def empty_df_def convert_dates_def Let_def)

lemma convert_dates_idem:
  assumes "list_all (\<lambda>r. date r = Timestamp (day_of (date r))) (rows df)"
  shows "convert_dates df = df"
proof -
  have "map (\<lambda>r. r\<lparr>date := to_datetime (date r)\<rparr>) (rows df) = rows df"
    using assms by (auto simp: to_datetime_def list_all_iff intro: map_idI)
  then show ?thesis by (simp add: convert_dates_def)
qed

text \<open>
  C7. On an empty frame \<open>fill_gaps\<close> returns the frame it was given and raises nothing, and
  \<open>validate_results\<close> returns at once the verdict \<open>False\<close> with the single issue
  "No valid data found": no other issue is appended and the frame is not touched.
\<close>

theorem empty_input:
  "empty_df df \<Longrightarrow> fill_gaps sp ip df g = (df, Inr df)
     \<and> validate_results df = (df, (False, [''No valid data found'']))"
  by (simp add: fill_gaps_def validate_results_def)

theorem empty_input_witness:
  "empty_df no_frame \<and> fill_gaps flat_spline flat_interp no_frame 32 = (no_frame, Inr no_frame)
     \<and> validate_results no_frame = (no_frame, (False, [''No valid data found'']))"
proof -
  have e: "empty_df no_frame" by (simp add: empty_df_def no_frame_def)
  show ?thesis using e empty_input [OF e, of flat_spline flat_interp 32] by simp
qed

text \<open>
  C9 as stated fails: both functions assign the converted date column into the frame they
  are given, so a frame whose dates are still strings is not the same after the call.
\<close>

theorem input_changed_counterexample:
  "fst (fill_gaps flat_spline flat_interp one_row 32) \<noteq> one_row
     \<and> fst (validate_results one_row) \<noteq> one_row"
  by (simp add: fst_fill_gaps fst_validate_results convert_dates_def one_row_def observation_def
        null_row_def to_datetime_def)

text \<open>
  C9, amended. \<open>fill_gaps\<close> and \<open>validate_results\<close> change nothing of the frame passed in but
  the representation of its date column, which becomes timestamps of the same days: the
  columns, the number and order of the rows and every other cell stay as they were, whether
  the call returns or raises. A frame whose dates are timestamps already (every series that
  \<open>fill_gaps\<close> builds) is left as it was.
\<close>

theorem input_dates_converted:
  "columns (fst (fill_gaps sp ip df g)) = columns df
   \<and> rows (fst (fill_gaps sp ip df g)) = map (\<lambda>r. r\<lparr>date := Timestamp (day_of (date r))\<rparr>) (rows df)
   \<and> columns (fst (validate_results df)) = columns df
   \<and> rows (fst (validate_results df)) = map (\<lambda>r. r\<lparr>date := Timestamp (day_of (date r))\<rparr>) (rows df)
   \<and> (list_all (\<lambda>r. date r = Timestamp (day_of (date r))) (rows df)
        \<longrightarrow> fst (fill_gaps sp ip df g) = df \<and> fst (validate_results df) = df)"
  using convert_dates_idem [of df]
  by (simp add: fst_fill_gaps fst_validate_results convert_dates_def to_datetime_def)

theorem input_dates_converted_witness:
  "rows (fst (fill_gaps flat_spline flat_interp one_row 32)) = [observation (Timestamp 0) 1]
   \<and> list_all (\<lambda>r. date r = Timestamp (day_of (date r))) (rows (convert_dates one_row))
   \<and> fst (validate_results (convert_dates one_row)) = convert_dates one_row"
  using input_dates_converted [of flat_spline flat_interp one_row 32]
    input_dates_converted [of flat_spline flat_interp "convert_dates one_row" 32]
  by (simp add: one_row_def observation_def null_row_def convert_dates_def to_datetime_def)

end
